theory Spec2Isabelle
  imports Main "HOL-Library.Signed_Division"
begin

section \<open>The machine integers of the program\<close>

text \<open>
  Every integer of \<^verbatim>\<open>main.cpp\<close> is a C++ \<^verbatim>\<open>int\<close> (32 bits, two's complement).
  Values are modelled as \<^typ>\<open>int\<close> inside the range \<open>INT_MIN .. INT_MAX\<close>; the one
  operation of the program that can leave the range, \<^verbatim>\<open>val++\<close>, is wrapped around
  by \<open>wrap32\<close>, as the load/add/store on the \<^verbatim>\<open>volatile int\<close> does on the machine
  (the C++ standard leaves signed overflow undefined). The remainder \<^verbatim>\<open>%\<close> of C++
  truncates towards zero: it is \<open>smod\<close>, not \<open>mod\<close>.
\<close>

definition INT_MAX :: int where
  "INT_MAX = 2147483647"

definition INT_MIN :: int where
  "INT_MIN = - 2147483648"

definition wrap32 :: "int \<Rightarrow> int" where
  "wrap32 x = (x + 2147483648) mod 4294967296 - 2147483648"

section \<open>The three resources\<close>

text \<open>
  \<^verbatim>\<open>ResourceAtomicSpin\<close>, \<^verbatim>\<open>ResourceAtomicFlag\<close> and \<^verbatim>\<open>ResourceMutex\<close> each hold the
  counter \<^verbatim>\<open>val\<close> and one lock member. The record is the union of their members; a
  resource of one class reads and writes \<open>val\<close> and its own lock member only.
  \<open>m_locked\<close> is the state of the \<^verbatim>\<open>std::mutex m\<close>.
\<close>

datatype variant = AtomicSpin | AtomicFlag | Mutex

record resource =
  val :: int
  spin_lock :: int
  std_spin_lock :: bool
  m_locked :: bool

datatype fault = Arithmetic_trap

subsection \<open>One call of \<^verbatim>\<open>inc\<close>, run alone\<close>

text \<open>
  \<^verbatim>\<open>spin_lock.compare_exchange_weak(expect, 1, ...)\<close>: the result is the returned
  flag, the new content of the cell and the new content of \<^verbatim>\<open>expect\<close>. The weak
  form may fail although the cell holds the expected value; \<open>spurious\<close> says
  whether it does so this time.
\<close>

definition compare_exchange_weak :: "bool \<Rightarrow> int \<Rightarrow> int \<Rightarrow> int \<Rightarrow> bool \<times> int \<times> int" where
  "compare_exchange_weak spurious cell expected desired =
     (if cell = expected \<and> \<not> spurious then (True, desired, expected)
      else (False, cell, cell))"

text \<open>
  \<^verbatim>\<open>do { expect = 0; } while (spin_lock.compare_exchange_weak(expect, 1, ...));\<close>
  The list says which of the successive attempts fail spuriously (none once it
  is used up). The result is the content of the cell when the loop is left.
\<close>

function spin_acquire :: "bool list \<Rightarrow> int \<Rightarrow> int" where
  "spin_acquire sp cell =
     (let expect = 0;
          (ok, cell', expect') =
             compare_exchange_weak (case sp of [] \<Rightarrow> False | b # _ \<Rightarrow> b) cell expect 1
      in if ok then spin_acquire (tl sp) cell' else cell')"
  by pat_completeness auto
termination
  by (relation "measure (\<lambda>(sp, cell). if cell = 0 then 1 else 0)")
     (auto simp: compare_exchange_weak_def split: if_splits)

text \<open>
  \<^verbatim>\<open>while (std_spin_lock.test_and_set(...));\<close> The flag is set by every attempt and
  the loop goes on while the flag was set before: run alone on a set flag it never
  ends, which is the value \<open>None\<close>.
\<close>

partial_function (option) flag_acquire :: "bool \<Rightarrow> bool option" where
  "flag_acquire flag =
     (let old = flag; flag' = True
      in if old then flag_acquire flag' else Some flag')"

text \<open>\<^verbatim>\<open>m.lock()\<close>: a caller that finds the mutex locked blocks; alone, for ever.\<close>

definition mutex_lock :: "bool \<Rightarrow> bool option" where
  "mutex_lock locked = (if locked then None else Some True)"

text \<open>
  The statements between lock and unlock, the same in the three classes:
  \<^verbatim>\<open>if (val % max_threads == thread_num) val++; int ret = val;\<close>
  The result is \<open>(ret, val)\<close>. The remainder traps on a zero divisor and on
  \<open>INT_MIN % -1\<close>.
\<close>

definition protected_region :: "int \<Rightarrow> int \<Rightarrow> int \<Rightarrow> fault + int \<times> int" where
  "protected_region max_threads thread_num v =
     (if max_threads = 0 \<or> (v = INT_MIN \<and> max_threads = - 1) then Inl Arithmetic_trap
      else let v' = (if v smod max_threads = thread_num then wrap32 (v + 1) else v);
               ret = v'
           in Inr (ret, v'))"

definition inc_spin ::
    "bool list \<Rightarrow> int \<Rightarrow> int \<Rightarrow> resource \<Rightarrow> (fault + int \<times> resource) option" where
  "inc_spin sp max_threads thread_num r =
     (let cell = spin_acquire sp (spin_lock r)
      in Some (case protected_region max_threads thread_num (val r) of
                 Inl e \<Rightarrow> Inl e
               | Inr (ret, v') \<Rightarrow> Inr (ret, r\<lparr>val := v', spin_lock := 0\<rparr>)))"

definition inc_flag :: "int \<Rightarrow> int \<Rightarrow> resource \<Rightarrow> (fault + int \<times> resource) option" where
  "inc_flag max_threads thread_num r =
     (case flag_acquire (std_spin_lock r) of
        None \<Rightarrow> None
      | Some flag \<Rightarrow>
          Some (case protected_region max_threads thread_num (val r) of
                  Inl e \<Rightarrow> Inl e
                | Inr (ret, v') \<Rightarrow> Inr (ret, r\<lparr>val := v', std_spin_lock := False\<rparr>)))"

definition inc_mutex :: "int \<Rightarrow> int \<Rightarrow> resource \<Rightarrow> (fault + int \<times> resource) option" where
  "inc_mutex max_threads thread_num r =
     (case mutex_lock (m_locked r) of
        None \<Rightarrow> None
      | Some locked \<Rightarrow>
          Some (case protected_region max_threads thread_num (val r) of
                  Inl e \<Rightarrow> Inl e
                | Inr (ret, v') \<Rightarrow> Inr (ret, r\<lparr>val := v', m_locked := False\<rparr>)))"

text \<open>The virtual call \<^verbatim>\<open>r.inc(max_threads, thread_num)\<close>.\<close>

definition inc ::
    "variant \<Rightarrow> bool list \<Rightarrow> int \<Rightarrow> int \<Rightarrow> resource \<Rightarrow> (fault + int \<times> resource) option" where
  "inc v sp max_threads thread_num r =
     (case v of
        AtomicSpin \<Rightarrow> inc_spin sp max_threads thread_num r
      | AtomicFlag \<Rightarrow> inc_flag max_threads thread_num r
      | Mutex \<Rightarrow> inc_mutex max_threads thread_num r)"

section \<open>Workers running in parallel\<close>

text \<open>
  \<^verbatim>\<open>execSync\<close> starts one \<^verbatim>\<open>worker\<close> thread for each \<open>i\<close> with \<open>0 \<le> i < max_threads\<close>
  and joins them all. A run is modelled as an interleaving: a configuration holds
  the shared resource and, for each worker, its program counter and its locals;
  one step is one access to shared memory (or the loop test) by one worker, and
  each access to \<^verbatim>\<open>val\<close> or to a lock member is one step. The steps of a run
  take effect one after the other, in the order of the schedule, and every
  worker reads what was written last: the memory is sequentially consistent, the
  acquire and release orders of the source are not modelled. The local \<open>tmp\<close> is
  the value loaded by \<^verbatim>\<open>val++\<close>.

  The program counters are the statements of \<^verbatim>\<open>worker\<close> with \<^verbatim>\<open>inc\<close> inlined:
  \<^item> \<open>SpinSetExpect\<close>: \<^verbatim>\<open>expect = 0\<close>; \<open>SpinCAS\<close>: the \<^verbatim>\<open>compare_exchange_weak\<close>
    and the test of the \<^verbatim>\<open>do ... while\<close>;
  \<^item> \<open>FlagTAS\<close>: one \<^verbatim>\<open>test_and_set\<close> and the test of the \<^verbatim>\<open>while\<close>;
  \<^item> \<open>MutexLock\<close>: \<^verbatim>\<open>m.lock()\<close>;
  \<^item> \<open>TestTurn\<close>: \<^verbatim>\<open>if (val % max_threads == thread_num)\<close>;
  \<^item> \<open>IncLoad\<close>, \<open>IncStore\<close>: the load and the store of \<^verbatim>\<open>val++\<close>;
  \<^item> \<open>CopyRet\<close>: \<^verbatim>\<open>int ret = val\<close>;
  \<^item> \<open>Unlock\<close>: \<^verbatim>\<open>spin_lock.store(0)\<close>, \<^verbatim>\<open>std_spin_lock.clear()\<close> or \<^verbatim>\<open>m.unlock()\<close>;
  \<^item> \<open>LoopTest\<close>: \<^verbatim>\<open>inc\<close> has returned \<open>ret\<close>; the test \<^verbatim>\<open>< max_count\<close> of the worker;
  \<^item> \<open>Returned\<close>: the worker has left its loop and can be joined.
\<close>

datatype pc =
  SpinSetExpect | SpinCAS | FlagTAS | MutexLock
  | TestTurn | IncLoad | IncStore | CopyRet | Unlock
  | LoopTest | Returned

record thread =
  pc :: pc
  expect :: int
  tmp :: int
  ret :: int

record config = resource +
  threads :: "nat \<Rightarrow> thread"

text \<open>The first statement of \<^verbatim>\<open>inc\<close> in each class.\<close>

definition entry :: "variant \<Rightarrow> pc" where
  "entry v = (case v of AtomicSpin \<Rightarrow> SpinSetExpect | AtomicFlag \<Rightarrow> FlagTAS | Mutex \<Rightarrow> MutexLock)"

text \<open>The unlock statement of each class.\<close>

definition unlock :: "variant \<Rightarrow> config \<Rightarrow> config" where
  "unlock v c =
     (case v of
        AtomicSpin \<Rightarrow> c\<lparr>spin_lock := 0\<rparr>
      | AtomicFlag \<Rightarrow> c\<lparr>std_spin_lock := False\<rparr>
      | Mutex \<Rightarrow> c\<lparr>m_locked := False\<rparr>)"

definition set_thread :: "nat \<Rightarrow> thread \<Rightarrow> config \<Rightarrow> config" where
  "set_thread i t c = c\<lparr>threads := (threads c)(i := t)\<rparr>"

text \<open>
  One step of worker \<open>fst ch\<close>; \<open>snd ch\<close> says whether a \<^verbatim>\<open>compare_exchange_weak\<close>
  executed by this step fails spuriously. A worker that does not exist, or has
  returned, does nothing; a worker whose \<^verbatim>\<open>test_and_set\<close> finds the flag set
  stays in its loop, and one that finds the mutex locked stays blocked.
\<close>

definition step :: "variant \<Rightarrow> int \<Rightarrow> int \<Rightarrow> nat \<times> bool \<Rightarrow> config \<Rightarrow> config" where
  "step v max_threads max_count ch c =
     (let i = fst ch; t = threads c i in
      if \<not> int i < max_threads then c
      else case pc t of
        SpinSetExpect \<Rightarrow> set_thread i (t\<lparr>expect := 0, pc := SpinCAS\<rparr>) c
      | SpinCAS \<Rightarrow>
          (case compare_exchange_weak (snd ch) (spin_lock c) (expect t) 1 of
             (ok, cell', expect') \<Rightarrow>
               set_thread i (t\<lparr>expect := expect', pc := (if ok then SpinSetExpect else TestTurn)\<rparr>)
                 (c\<lparr>spin_lock := cell'\<rparr>))
      | FlagTAS \<Rightarrow>
          (if std_spin_lock c then c
           else set_thread i (t\<lparr>pc := TestTurn\<rparr>) (c\<lparr>std_spin_lock := True\<rparr>))
      | MutexLock \<Rightarrow>
          (if m_locked c then c
           else set_thread i (t\<lparr>pc := TestTurn\<rparr>) (c\<lparr>m_locked := True\<rparr>))
      | TestTurn \<Rightarrow>
          set_thread i (t\<lparr>pc := (if val c smod max_threads = int i then IncLoad else CopyRet)\<rparr>) c
      | IncLoad \<Rightarrow> set_thread i (t\<lparr>tmp := val c, pc := IncStore\<rparr>) c
      | IncStore \<Rightarrow> set_thread i (t\<lparr>pc := CopyRet\<rparr>) (c\<lparr>val := wrap32 (tmp t + 1)\<rparr>)
      | CopyRet \<Rightarrow> set_thread i (t\<lparr>ret := val c, pc := Unlock\<rparr>) c
      | Unlock \<Rightarrow> set_thread i (t\<lparr>pc := LoopTest\<rparr>) (unlock v c)
      | LoopTest \<Rightarrow>
          set_thread i (t\<lparr>pc := (if ret t < max_count then entry v else Returned)\<rparr>) c
      | Returned \<Rightarrow> c)"

text \<open>A run: the steps of a schedule, one after the other.\<close>

fun exec :: "variant \<Rightarrow> int \<Rightarrow> int \<Rightarrow> config \<Rightarrow> (nat \<times> bool) list \<Rightarrow> config" where
  "exec v n mc c [] = c"
| "exec v n mc c (ch # sched) = exec v n mc (step v n mc ch c) sched"

text \<open>
  Where \<^verbatim>\<open>execSync\<close> starts: a fresh resource (\<^verbatim>\<open>val = 0\<close>, flag clear, mutex
  unlocked) and every worker about to call \<^verbatim>\<open>inc\<close> for the first time. The
  \<^verbatim>\<open>std::atomic<int> spin_lock\<close> has no initialiser and the locals hold nothing yet,
  so they are left open.
\<close>

definition initial :: "variant \<Rightarrow> config \<Rightarrow> bool" where
  "initial v c \<longleftrightarrow>
     val c = 0 \<and> \<not> std_spin_lock c \<and> \<not> m_locked c \<and> (\<forall>i. pc (threads c i) = entry v)"

text \<open>The initial configuration with zeros in the open places.\<close>

definition init :: "variant \<Rightarrow> config" where
  "init v = \<lparr>val = 0, spin_lock = 0, std_spin_lock = False, m_locked = False,
             threads = (\<lambda>_. \<lparr>pc = entry v, expect = 0, tmp = 0, ret = 0\<rparr>)\<rparr>"

text \<open>All workers have returned: the joins of \<^verbatim>\<open>execSync\<close> are through.\<close>

definition all_returned :: "int \<Rightarrow> config \<Rightarrow> bool" where
  "all_returned max_threads c \<longleftrightarrow> (\<forall>i < nat max_threads. pc (threads c i) = Returned)"

text \<open>The worker is between its lock and its unlock.\<close>

definition in_region :: "config \<Rightarrow> nat \<Rightarrow> bool" where
  "in_region c i \<longleftrightarrow> pc (threads c i) \<in> {TestTurn, IncLoad, IncStore, CopyRet, Unlock}"


section \<open>The command line\<close>

text \<open>
  \<^verbatim>\<open>main\<close> reads the target count from \<^verbatim>\<open>argv[1]\<close> with \<^verbatim>\<open>std::stoi\<close>, a function of
  the C++ library and a parameter of \<open>main_max_count\<close>. It returns a value or throws
  (\<^verbatim>\<open>std::invalid_argument\<close> when no number can be read, \<^verbatim>\<open>std::out_of_range\<close> when
  the number is no \<^verbatim>\<open>int\<close>); \<^verbatim>\<open>catch (...)\<close> takes every exception.
\<close>

datatype stoi_result = Stoi_value int | Stoi_throws

definition max_count_dflt :: int where
  "max_count_dflt = 1000000"

definition main_max_count :: "(string \<Rightarrow> stoi_result) \<Rightarrow> string list \<Rightarrow> int" where
  "main_max_count stoi argv =
     (let max_count = max_count_dflt in
      if length argv > 1 then
        (case stoi (argv ! 1) of
           Stoi_value x \<Rightarrow> (if x < 0 then max_count_dflt else x)
         | Stoi_throws \<Rightarrow> max_count_dflt)
      else max_count)"


text \<open>
  The library function itself, as the C++ standard defines \<^verbatim>\<open>std::stoi(str)\<close>: it
  calls \<^verbatim>\<open>strtol\<close> with base 10, which skips leading white space, takes an optional
  sign and then the longest run of decimal digits, and leaves the rest of the
  string unread. \<^verbatim>\<open>std::stoi\<close> throws \<^verbatim>\<open>std::invalid_argument\<close> when there is no
  digit to convert and \<^verbatim>\<open>std::out_of_range\<close> when the number read is not an \<^verbatim>\<open>int\<close>;
  otherwise it returns the number. \<open>leading_number\<close> is the number read, if any.
\<close>

definition isspace :: "char \<Rightarrow> bool" where
  "isspace c \<longleftrightarrow> c \<in> {CHR '' '', CHR 0x09, CHR 0x0A, CHR 0x0B, CHR 0x0C, CHR 0x0D}"

definition isdigit :: "char \<Rightarrow> bool" where
  "isdigit c \<longleftrightarrow> c \<in> set ''0123456789''"

definition digit_value :: "char \<Rightarrow> int" where
  "digit_value c = int (of_char c) - int (of_char (CHR ''0''))"

definition decimal :: "string \<Rightarrow> int" where
  "decimal ds = foldl (\<lambda>a c. 10 * a + digit_value c) 0 ds"

definition leading_number :: "string \<Rightarrow> int option" where
  "leading_number str =
     (let s = dropWhile isspace str;
          negative = (s \<noteq> [] \<and> hd s = CHR ''-'');
          s' = (if s \<noteq> [] \<and> (hd s = CHR ''-'' \<or> hd s = CHR ''+'') then tl s else s);
          ds = takeWhile isdigit s'
      in if ds = [] then None
         else Some (if negative then - decimal ds else decimal ds))"

definition std_stoi :: "string \<Rightarrow> stoi_result" where
  "std_stoi str =
     (case leading_number str of
        None \<Rightarrow> Stoi_throws
      | Some x \<Rightarrow> if x < INT_MIN \<or> INT_MAX < x then Stoi_throws else Stoi_value x)"
section \<open>Notions used to state and prove the properties of runs\<close>

text \<open>
  A worker is committed to return when nothing it can still read will keep it in
  its loop: it has returned, or it holds a copy \<open>ret \<ge> max_count\<close> that its loop
  test will see, or it is about to copy a counter that has reached \<open>max_count\<close>.
\<close>

definition committed :: "int \<Rightarrow> config \<Rightarrow> nat \<Rightarrow> bool" where
  "committed mc c i \<longleftrightarrow>
     pc (threads c i) = Returned
     \<or> (pc (threads c i) \<in> {Unlock, LoopTest} \<and> mc \<le> ret (threads c i))
     \<or> (pc (threads c i) = CopyRet \<and> mc \<le> val c)"

text \<open>
  What holds of worker \<open>i\<close> in every configuration of a run without overflow:
  between the test of its turn and its store it is the worker whose turn it is,
  at the store it has loaded the current counter, its copy \<open>ret\<close> is not above the
  counter, and it has returned only if the counter has reached the target.
\<close>

definition thread_inv :: "int \<Rightarrow> int \<Rightarrow> config \<Rightarrow> nat \<Rightarrow> bool" where
  "thread_inv n mc c i \<longleftrightarrow>
       (pc (threads c i) \<in> {IncLoad, IncStore} \<longrightarrow> val c mod n = int i)
     \<and> (pc (threads c i) = IncStore \<longrightarrow> tmp (threads c i) = val c)
     \<and> (pc (threads c i) \<in> {Unlock, LoopTest} \<longrightarrow> ret (threads c i) \<le> val c)
     \<and> (pc (threads c i) = Returned \<longrightarrow> mc \<le> val c)"

text \<open>
  The invariant of the counter: it is not negative, and it is above
  \<open>max_count - 1\<close> by at most the number of workers committed to return.
\<close>

definition val_inv :: "int \<Rightarrow> int \<Rightarrow> config \<Rightarrow> bool" where
  "val_inv n mc c \<longleftrightarrow>
       0 \<le> val c
     \<and> val c \<le> max (mc - 1) 0 + int (card {i. i < nat n \<and> committed mc c i})
     \<and> (\<forall>i < nat n. thread_inv n mc c i)"

text \<open>The counter is an \<^verbatim>\<open>int\<close>.\<close>

definition in_range :: "config \<Rightarrow> bool" where
  "in_range c \<longleftrightarrow> INT_MIN \<le> val c \<and> val c \<le> INT_MAX"

text \<open>The program counters a worker of variant \<open>v\<close> can be at.\<close>

definition own_pc :: "variant \<Rightarrow> pc \<Rightarrow> bool" where
  "own_pc v p \<longleftrightarrow>
     p \<in> {TestTurn, IncLoad, IncStore, CopyRet, Unlock, LoopTest, Returned}
     \<or> p = entry v \<or> (v = AtomicSpin \<and> p = SpinCAS)"

text \<open>The lock member of variant \<open>v\<close> says: taken.\<close>

definition held :: "variant \<Rightarrow> config \<Rightarrow> bool" where
  "held v c =
     (case v of
        AtomicSpin \<Rightarrow> spin_lock c \<noteq> 0
      | AtomicFlag \<Rightarrow> std_spin_lock c
      | Mutex \<Rightarrow> m_locked c)"

text \<open>
  The invariant of the two working locks: the flag is set (the mutex locked)
  exactly when some worker is between lock and unlock, and no two workers are.
\<close>

definition lock_inv :: "variant \<Rightarrow> int \<Rightarrow> config \<Rightarrow> bool" where
  "lock_inv v n c \<longleftrightarrow>
       (\<forall>i < nat n. own_pc v (pc (threads c i)))
     \<and> (v \<noteq> AtomicSpin \<longrightarrow>
          (held v c \<longleftrightarrow> (\<exists>i < nat n. in_region c i))
        \<and> (\<forall>i < nat n. \<forall>j < nat n. in_region c i \<and> in_region c j \<longrightarrow> i = j))"

text \<open>
  How many steps of its own (at most) a worker needs to come to the end of the
  call it is in; 0 when it is about to call or has returned.
\<close>

definition midpot :: "pc \<Rightarrow> nat" where
  "midpot p =
     (case p of
        SpinCAS \<Rightarrow> 7 | TestTurn \<Rightarrow> 6 | IncLoad \<Rightarrow> 5 | IncStore \<Rightarrow> 4
      | CopyRet \<Rightarrow> 3 | Unlock \<Rightarrow> 2 | LoopTest \<Rightarrow> 1 | _ \<Rightarrow> 0)"

text \<open>What is left to do in a run: increments up to the target, and workers to return.\<close>

definition remaining :: "int \<Rightarrow> int \<Rightarrow> config \<Rightarrow> nat" where
  "remaining n mc c = nat (mc - val c) + card {i. i < nat n \<and> pc (threads c i) \<noteq> Returned}"

text \<open>
  The number of times worker \<open>i\<close> executes the store of \<^verbatim>\<open>val++\<close> in the run of a
  schedule from \<open>c\<close>: its increments.
\<close>

fun increments :: "variant \<Rightarrow> int \<Rightarrow> int \<Rightarrow> config \<Rightarrow> (nat \<times> bool) list \<Rightarrow> nat \<Rightarrow> nat" where
  "increments v n mc c [] i = 0"
| "increments v n mc c (ch # sched) i =
     (if fst ch = i \<and> int i < n \<and> pc (threads c i) = IncStore then 1 else 0)
     + increments v n mc (step v n mc ch c) sched i"

text \<open>The number of counter values \<open>u < V\<close> with \<open>u mod n = i\<close>: the turns of worker \<open>i\<close> below \<open>V\<close>.\<close>

fun turns :: "int \<Rightarrow> nat \<Rightarrow> nat \<Rightarrow> nat" where
  "turns n i 0 = 0"
| "turns n i (Suc V) = turns n i V + (if int V mod n = int i then 1 else 0)"

text \<open>
  Two workers on a \<^verbatim>\<open>ResourceMutex\<close>, both about to call \<^verbatim>\<open>inc\<close>, the mutex
  unlocked and the counter at \<open>V\<close>.
\<close>

definition quiet2 :: "int \<Rightarrow> config \<Rightarrow> bool" where
  "quiet2 V c \<longleftrightarrow> val c = V \<and> \<not> m_locked c
      \<and> pc (threads c 0) = MutexLock \<and> pc (threads c 1) = MutexLock"

text \<open>
  Schedules of whole calls made alone under the mutex (7 steps for a call that
  increments, 5 for one that does not). \<open>alternate k\<close>: \<open>k\<close> rounds of two workers,
  worker 0 then worker 1, one incrementing call each. \<open>sched_4_100\<close>: 25 rounds
  of four workers, one incrementing call each in the order 0, 1, 2, 3, then one
  more incrementing call of each of the workers 0, 1, 2.
\<close>

definition alternate :: "nat \<Rightarrow> (nat \<times> bool) list" where
  "alternate k = concat (replicate k (replicate 7 (0, False) @ replicate 7 (1, False)))"

definition sched_4_100 :: "(nat \<times> bool) list" where
  "sched_4_100 =
     concat (replicate 25 (replicate 7 (0, False) @ replicate 7 (1, False)
                           @ replicate 7 (2, False) @ replicate 7 (3, False)))
     @ replicate 7 (0, False) @ replicate 7 (1, False) @ replicate 7 (2, False)"

text \<open>
  A configuration of a run with the flag and one of a run with the mutex that
  correspond: the same counter, the flag set where the mutex is locked, each
  worker at the same statement (the \<^verbatim>\<open>test_and_set\<close> loop for \<^verbatim>\<open>m.lock()\<close>) and with
  the same locals where they will still be read.
\<close>

definition pc_corr :: "pc \<Rightarrow> pc \<Rightarrow> bool" where
  "pc_corr p q \<longleftrightarrow>
     (p = FlagTAS \<and> q = MutexLock)
     \<or> (p = q \<and> p \<in> {TestTurn, IncLoad, IncStore, CopyRet, Unlock, LoopTest, Returned})"

definition corr :: "config \<Rightarrow> config \<Rightarrow> bool" where
  "corr c d \<longleftrightarrow>
     val c = val d \<and> std_spin_lock c = m_locked d
     \<and> (\<forall>i. pc_corr (pc (threads c i)) (pc (threads d i))
            \<and> (pc (threads c i) = IncStore \<longrightarrow> tmp (threads c i) = tmp (threads d i))
            \<and> (pc (threads c i) \<in> {Unlock, LoopTest} \<longrightarrow> ret (threads c i) = ret (threads d i)))"

text \<open>What a caller sees of a call run alone: the fault, or the returned value and the counter.\<close>

definition observe :: "(fault + int \<times> resource) option \<Rightarrow> (fault + int \<times> int) option" where
  "observe x = map_option (map_sum id (\<lambda>(ret, r). (ret, val r))) x"

text \<open>A worker that has returned holds a copy \<open>ret \<ge> max_count\<close>.\<close>

definition exit_inv :: "int \<Rightarrow> config \<Rightarrow> bool" where
  "exit_inv mc c \<longleftrightarrow> (\<forall>i. pc (threads c i) = Returned \<longrightarrow> mc \<le> ret (threads c i))"

text \<open>
  What the working locks give in addition: the copy a worker takes is not a value
  at which it would have been its own turn, since nobody else moves the counter
  between its test and its copy.
\<close>

definition above_inv :: "int \<Rightarrow> config \<Rightarrow> bool" where
  "above_inv n c \<longleftrightarrow>
     (\<forall>i < nat n.
        (pc (threads c i) = CopyRet \<longrightarrow> val c mod n \<noteq> int i)
      \<and> (pc (threads c i) \<in> {Unlock, LoopTest, Returned} \<longrightarrow>
           ret (threads c i) mod n \<noteq> int i \<and> ret (threads c i) \<le> val c))"

text \<open>The resource of a configuration.\<close>

definition resource_of :: "config \<Rightarrow> resource" where
  "resource_of c = \<lparr>val = val c, spin_lock = spin_lock c, std_spin_lock = std_spin_lock c,
                     m_locked = m_locked c\<rparr>"

text \<open>
  Two workers under the mutex after an overflow: the counter is \<open>INT_MIN\<close>, worker
  0 has returned, and worker 1 is in its loop with no copy that would end it.
\<close>

definition stuck :: "int \<Rightarrow> config \<Rightarrow> bool" where
  "stuck mc c \<longleftrightarrow>
     val c = INT_MIN \<and> pc (threads c 0) = Returned
     \<and> pc (threads c 1) \<in> {MutexLock, TestTurn, CopyRet, Unlock, LoopTest}
     \<and> (pc (threads c 1) \<in> {Unlock, LoopTest} \<longrightarrow> ret (threads c 1) < mc)"


text \<open>The number of steps of worker \<open>i\<close> in a schedule.\<close>

definition own_steps :: "nat \<Rightarrow> (nat \<times> bool) list \<Rightarrow> nat" where
  "own_steps i sched = length (filter (\<lambda>ch. fst ch = i) sched)"

text \<open>
  A call of worker \<open>i\<close> that holds the lock and found the counter at \<open>V\<close>:
  \<open>call_result\<close> is the counter it leaves and returns, \<open>call_left\<close> the number of
  steps it still has to take up to and including its unlock, and \<open>in_call\<close> says
  that the counter and its locals are what its own steps so far have made them.
\<close>

definition call_result :: "int \<Rightarrow> nat \<Rightarrow> int \<Rightarrow> int" where
  "call_result n i V = (if V smod n = int i then wrap32 (V + 1) else V)"

definition call_left :: "int \<Rightarrow> nat \<Rightarrow> int \<Rightarrow> pc \<Rightarrow> nat" where
  "call_left n i V p =
     (case p of
        TestTurn \<Rightarrow> (if V smod n = int i then 5 else 3)
      | IncLoad \<Rightarrow> 4 | IncStore \<Rightarrow> 3 | CopyRet \<Rightarrow> 2 | Unlock \<Rightarrow> 1 | _ \<Rightarrow> 0)"

definition in_call :: "int \<Rightarrow> nat \<Rightarrow> int \<Rightarrow> config \<Rightarrow> bool" where
  "in_call n i V c \<longleftrightarrow>
       in_region c i
     \<and> (pc (threads c i) \<in> {TestTurn, IncLoad, IncStore} \<longrightarrow> val c = V)
     \<and> (pc (threads c i) \<in> {IncLoad, IncStore} \<longrightarrow> V smod n = int i)
     \<and> (pc (threads c i) = IncStore \<longrightarrow> tmp (threads c i) = V)
     \<and> (pc (threads c i) \<in> {CopyRet, Unlock} \<longrightarrow> val c = call_result n i V)
     \<and> (pc (threads c i) = Unlock \<longrightarrow> ret (threads c i) = call_result n i V)"
section \<open>Facts about the machine integers\<close>

lemmas step_simps =
  step_def set_thread_def compare_exchange_weak_def entry_def unlock_def Let_def

lemma smod_nonneg: "0 \<le> a \<Longrightarrow> 0 < b \<Longrightarrow> (a::int) smod b = a mod b"
  by (simp add: signed_modulo_int_def sgn_if)

lemma wrap32_id: "INT_MIN \<le> x \<Longrightarrow> x \<le> INT_MAX \<Longrightarrow> wrap32 x = x"
  by (simp add: wrap32_def INT_MIN_def INT_MAX_def)

lemma wrap32_range: "INT_MIN \<le> wrap32 x \<and> wrap32 x \<le> INT_MAX"
  unfolding wrap32_def INT_MIN_def INT_MAX_def
  using pos_mod_bound[of 4294967296 "x + 2147483648"] pos_mod_sign[of 4294967296 "x + 2147483648"]
  by linarith

section \<open>The acquire loop of \<^verbatim>\<open>ResourceAtomicSpin\<close>\<close>

text \<open>
  Run alone, the loop is left as soon as a \<^verbatim>\<open>compare_exchange_weak\<close> fails: at
  once on a held cell, after one success on a free cell.
\<close>

lemma spin_acquire_exits:
  "spin_acquire sp cell =
     (if cell = 0 \<and> (sp \<noteq> [] \<and> hd sp) then 0 else if cell = 0 then 1 else cell)"
  apply (subst spin_acquire.simps)
  apply (cases sp)
   apply (auto simp: compare_exchange_weak_def)
  done


section \<open>Counting workers\<close>

lemma card_less_mono:
  "(\<And>j. j < N \<Longrightarrow> P j \<Longrightarrow> Q j) \<Longrightarrow> card {j. j < N \<and> P j} \<le> card {j. j < (N::nat) \<and> Q j}"
  by (rule card_mono) auto

lemma card_less_strict:
  assumes "\<And>j. j < N \<Longrightarrow> P j \<Longrightarrow> Q j" and "i < (N::nat)" and "\<not> P i" and "Q i"
  shows "card {j. j < N \<and> P j} + 1 \<le> card {j. j < N \<and> Q j}"
proof -
  have "card (insert i {j. j < N \<and> P j}) \<le> card {j. j < N \<and> Q j}"
    using assms by (intro card_mono) auto
  moreover have "card (insert i {j. j < N \<and> P j}) = card {j. j < N \<and> P j} + 1"
    using assms by simp
  ultimately show ?thesis by simp
qed

lemma card_less_bound:
  assumes "i < (N::nat)" and "\<not> P i"
  shows "card {j. j < N \<and> P j} + 1 \<le> N"
  using card_less_strict [of N P "\<lambda>_. True" i] assms by simp

section \<open>One step\<close>

lemma step_other: "j \<noteq> fst ch \<Longrightarrow> threads (step v n mc ch c) j = threads c j"
  by (cases "pc (threads c (fst ch))"; cases v) (auto simp: step_simps split: if_splits)

lemma step_val:
  "val (step v n mc ch c) =
     (if int (fst ch) < n \<and> pc (threads c (fst ch)) = IncStore
      then wrap32 (tmp (threads c (fst ch)) + 1) else val c)"
  by (cases "pc (threads c (fst ch))"; cases v) (auto simp: step_simps split: if_splits)

lemma step_not_thread: "\<not> int (fst ch) < n \<Longrightarrow> step v n mc ch c = c"
  by (simp add: step_def)

lemma step_self_pc_cases:
  assumes "int (fst ch) < n"
  shows "threads (step v n mc ch c) (fst ch) =
     (case pc (threads c (fst ch)) of
        SpinSetExpect \<Rightarrow> (threads c (fst ch))\<lparr>expect := 0, pc := SpinCAS\<rparr>
      | SpinCAS \<Rightarrow> (if spin_lock c = expect (threads c (fst ch)) \<and> \<not> snd ch
                      then (threads c (fst ch))\<lparr>pc := SpinSetExpect\<rparr>
                      else (threads c (fst ch))\<lparr>expect := spin_lock c, pc := TestTurn\<rparr>)
      | FlagTAS \<Rightarrow> (if std_spin_lock c then threads c (fst ch) else (threads c (fst ch))\<lparr>pc := TestTurn\<rparr>)
      | MutexLock \<Rightarrow> (if m_locked c then threads c (fst ch) else (threads c (fst ch))\<lparr>pc := TestTurn\<rparr>)
      | TestTurn \<Rightarrow> (threads c (fst ch))\<lparr>pc := (if val c smod n = int (fst ch) then IncLoad else CopyRet)\<rparr>
      | IncLoad \<Rightarrow> (threads c (fst ch))\<lparr>tmp := val c, pc := IncStore\<rparr>
      | IncStore \<Rightarrow> (threads c (fst ch))\<lparr>pc := CopyRet\<rparr>
      | CopyRet \<Rightarrow> (threads c (fst ch))\<lparr>ret := val c, pc := Unlock\<rparr>
      | Unlock \<Rightarrow> (threads c (fst ch))\<lparr>pc := LoopTest\<rparr>
      | LoopTest \<Rightarrow> (threads c (fst ch))\<lparr>pc := (if ret (threads c (fst ch)) < mc then entry v else Returned)\<rparr>
      | Returned \<Rightarrow> threads c (fst ch))"
  using assms
  by (cases "pc (threads c (fst ch))"; cases v) (auto simp: step_simps split: if_splits)

section \<open>The invariant of the counter\<close>

lemma val_inv_step:
  assumes inv: "val_inv n mc c" and H: "0 \<le> mc" "mc + n \<le> INT_MAX"
  shows "val_inv n mc (step v n mc ch c)"
proof (cases "int (fst ch) < n")
  case False
  then show ?thesis using inv by (simp add: step_not_thread)
next
  case True
  define i where "i = fst ch"
  define c' where "c' = step v n mc ch c"
  have iN: "i < nat n" and npos: "0 < n" using True by (auto simp: i_def)
  have v0: "0 \<le> val c"
    and bound: "val c \<le> max (mc - 1) 0 + int (card {j. j < nat n \<and> committed mc c j})"
    and ti: "\<And>j. j < nat n \<Longrightarrow> thread_inv n mc c j"
    using inv by (auto simp: val_inv_def)
  have other: "\<And>j. j \<noteq> i \<Longrightarrow> threads c' j = threads c j"
    by (simp add: c'_def i_def step_other)
  have self: "threads c' i = (case pc (threads c i) of
        SpinSetExpect \<Rightarrow> (threads c i)\<lparr>expect := 0, pc := SpinCAS\<rparr>
      | SpinCAS \<Rightarrow> (if spin_lock c = expect (threads c i) \<and> \<not> snd ch
                      then (threads c i)\<lparr>pc := SpinSetExpect\<rparr>
                      else (threads c i)\<lparr>expect := spin_lock c, pc := TestTurn\<rparr>)
      | FlagTAS \<Rightarrow> (if std_spin_lock c then threads c i else (threads c i)\<lparr>pc := TestTurn\<rparr>)
      | MutexLock \<Rightarrow> (if m_locked c then threads c i else (threads c i)\<lparr>pc := TestTurn\<rparr>)
      | TestTurn \<Rightarrow> (threads c i)\<lparr>pc := (if val c smod n = int i then IncLoad else CopyRet)\<rparr>
      | IncLoad \<Rightarrow> (threads c i)\<lparr>tmp := val c, pc := IncStore\<rparr>
      | IncStore \<Rightarrow> (threads c i)\<lparr>pc := CopyRet\<rparr>
      | CopyRet \<Rightarrow> (threads c i)\<lparr>ret := val c, pc := Unlock\<rparr>
      | Unlock \<Rightarrow> (threads c i)\<lparr>pc := LoopTest\<rparr>
      | LoopTest \<Rightarrow> (threads c i)\<lparr>pc := (if ret (threads c i) < mc then entry v else Returned)\<rparr>
      | Returned \<Rightarrow> threads c i)"
    unfolding c'_def i_def using True by (rule step_self_pc_cases)
  have ent: "entry v \<notin> {TestTurn, IncLoad, IncStore, CopyRet, Unlock, LoopTest, Returned}"
    by (cases v) (simp_all add: entry_def)
  have sm: "val c smod n = val c mod n" using v0 npos by (simp add: smod_nonneg)
  show ?thesis
  proof (cases "pc (threads c i) = IncStore")
    case False
    have val': "val c' = val c" using False by (simp add: c'_def step_val i_def)
    have mono: "committed mc c' j" if "j < nat n" "committed mc c j" for j
    proof (cases "j = i")
      case False
      then show ?thesis using that other val' by (simp add: committed_def)
    next
      case True
      then show ?thesis using that self val' \<open>pc (threads c i) \<noteq> IncStore\<close> ti[OF iN]
        by (cases "pc (threads c i)") (auto simp: committed_def thread_inv_def split: if_splits)
    qed
    have "card {j. j < nat n \<and> committed mc c j} \<le> card {j. j < nat n \<and> committed mc c' j}"
      by (rule card_less_mono) (rule mono)
    then have b': "val c' \<le> max (mc - 1) 0 + int (card {j. j < nat n \<and> committed mc c' j})"
      using bound val' by linarith
    have ti': "thread_inv n mc c' j" if "j < nat n" for j
    proof (cases "j = i")
      case False
      then show ?thesis using ti[OF that] other val' by (simp add: thread_inv_def)
    next
      case True
      then show ?thesis using self val' \<open>pc (threads c i) \<noteq> IncStore\<close> ti[OF iN] sm ent
        by (cases "pc (threads c i)") (auto simp: thread_inv_def split: if_splits)
    qed
    show ?thesis using v0 val' b' ti' by (simp add: val_inv_def c'_def)
  next
    case True
    have tmp: "tmp (threads c i) = val c" and turn: "val c mod n = int i"
      using ti[OF iN] True by (auto simp: thread_inv_def)
    have nc: "\<not> committed mc c i" using True by (simp add: committed_def)
    have "card {j. j < nat n \<and> committed mc c j} + 1 \<le> nat n"
      using iN nc by (rule card_less_bound)
    then have "val c < INT_MAX" using bound H npos by (simp add: INT_MAX_def)
    then have val': "val c' = val c + 1"
      using True tmp v0 \<open>int (fst ch) < n\<close>
      by (simp add: c'_def step_val i_def wrap32_id INT_MIN_def INT_MAX_def)
    have self': "threads c' i = (threads c i)\<lparr>pc := CopyRet\<rparr>" using self True by simp
    have mono: "committed mc c' j" if "j < nat n" "committed mc c j" for j
    proof (cases "j = i")
      case False
      then show ?thesis using that other val' by (auto simp: committed_def)
    next
      case True
      then show ?thesis using that nc by simp
    qed
    have b': "val c' \<le> max (mc - 1) 0 + int (card {j. j < nat n \<and> committed mc c' j})"
    proof (cases "mc \<le> val c + 1")
      case True
      have "committed mc c' i" using self' val' True by (simp add: committed_def)
      then have "card {j. j < nat n \<and> committed mc c j} + 1 \<le> card {j. j < nat n \<and> committed mc c' j}"
        using mono iN nc by (intro card_less_strict) auto
      then show ?thesis using bound val' by linarith
    next
      case False
      then show ?thesis using val' by simp
    qed
    have ti': "thread_inv n mc c' j" if "j < nat n" for j
    proof (cases "j = i")
      case False
      have "pc (threads c j) \<notin> {IncLoad, IncStore}"
        using ti[OF that] turn False by (auto simp: thread_inv_def)
      then show ?thesis using ti[OF that] other[OF False] val' by (auto simp: thread_inv_def)
    next
      case True
      then show ?thesis using self' by (simp add: thread_inv_def)
    qed
    show ?thesis using v0 val' b' ti' by (simp add: val_inv_def c'_def)
  qed
qed

lemma val_inv_initial: "initial v c \<Longrightarrow> val_inv n mc c"
  by (cases v) (auto simp: initial_def val_inv_def thread_inv_def entry_def)

lemma val_inv_exec:
  "val_inv n mc c \<Longrightarrow> 0 \<le> mc \<Longrightarrow> mc + n \<le> INT_MAX \<Longrightarrow> val_inv n mc (exec v n mc c sched)"
  by (induction sched arbitrary: c) (simp_all add: val_inv_step)

section \<open>Mutual exclusion under the flag and the mutex\<close>

lemma lock_inv_initial: "initial v c \<Longrightarrow> lock_inv v n c"
  by (cases v) (auto simp: initial_def lock_inv_def own_pc_def held_def in_region_def entry_def)

lemma lock_inv_step:
  assumes inv: "lock_inv v n c"
  shows "lock_inv v n (step v n mc ch c)"
proof (cases "int (fst ch) < n")
  case False
  then show ?thesis using inv by (simp add: step_not_thread)
next
  case True
  define i where "i = fst ch"
  define c' where "c' = step v n mc ch c"
  have iN: "i < nat n" using True by (auto simp: i_def)
  have other: "\<And>j. j \<noteq> i \<Longrightarrow> threads c' j = threads c j"
    by (simp add: c'_def i_def step_other)
  have own: "\<And>j. j < nat n \<Longrightarrow> own_pc v (pc (threads c j))"
    using inv by (simp add: lock_inv_def)
  have self: "pc (threads c' i) = (case pc (threads c i) of
        SpinSetExpect \<Rightarrow> SpinCAS
      | SpinCAS \<Rightarrow> (if spin_lock c = expect (threads c i) \<and> \<not> snd ch then SpinSetExpect else TestTurn)
      | FlagTAS \<Rightarrow> (if std_spin_lock c then FlagTAS else TestTurn)
      | MutexLock \<Rightarrow> (if m_locked c then MutexLock else TestTurn)
      | TestTurn \<Rightarrow> (if val c smod n = int i then IncLoad else CopyRet)
      | IncLoad \<Rightarrow> IncStore
      | IncStore \<Rightarrow> CopyRet
      | CopyRet \<Rightarrow> Unlock
      | Unlock \<Rightarrow> LoopTest
      | LoopTest \<Rightarrow> (if ret (threads c i) < mc then entry v else Returned)
      | Returned \<Rightarrow> Returned)"
    unfolding c'_def i_def using True
    by (simp add: step_self_pc_cases split: pc.splits)
  have held': "held v c' = (case pc (threads c i) of
        FlagTAS \<Rightarrow> (if v = AtomicFlag then True else held v c)
      | MutexLock \<Rightarrow> (if v = Mutex then True else held v c)
      | Unlock \<Rightarrow> False
      | SpinCAS \<Rightarrow> (if v = AtomicSpin then (if spin_lock c = expect (threads c i) \<and> \<not> snd ch then True else held v c) else held v c)
      | _ \<Rightarrow> held v c)"
    unfolding c'_def i_def using True
    by (cases "pc (threads c (fst ch))"; cases v) (auto simp: step_simps held_def)
  have own': "own_pc v (pc (threads c' j))" if "j < nat n" for j
  proof (cases "j = i")
    case False
    then show ?thesis using own[OF that] other by simp
  next
    case True
    then show ?thesis using own[OF iN] self
      by (cases "pc (threads c i)"; cases v) (auto simp: own_pc_def entry_def)
  qed
  show ?thesis
  proof (cases "v = AtomicSpin")
    case True
    then show ?thesis using own' by (simp add: lock_inv_def c'_def)
  next
    case False
    have h: "held v c \<longleftrightarrow> (\<exists>j < nat n. in_region c j)"
      and me: "\<And>j k. j < nat n \<Longrightarrow> k < nat n \<Longrightarrow> in_region c j \<Longrightarrow> in_region c k \<Longrightarrow> j = k"
      using inv False by (auto simp: lock_inv_def)
    have reg_other: "\<And>j. j \<noteq> i \<Longrightarrow> in_region c' j = in_region c j"
      using other by (simp add: in_region_def)
    have ownv: "pc (threads c i) \<noteq> SpinSetExpect" "pc (threads c i) \<noteq> SpinCAS"
      "v = AtomicFlag \<Longrightarrow> pc (threads c i) \<noteq> MutexLock"
      "v = Mutex \<Longrightarrow> pc (threads c i) \<noteq> FlagTAS"
      using own[OF iN] False by (cases v; auto simp: own_pc_def entry_def)+
    consider (enter) "pc (threads c i) = entry v" "\<not> held v c"
      | (wait) "pc (threads c i) = entry v" "held v c"
      | (inside) "pc (threads c i) \<in> {TestTurn, IncLoad, IncStore, CopyRet}"
      | (leave) "pc (threads c i) = Unlock"
      | (out) "pc (threads c i) \<in> {LoopTest, Returned}"
      using own[OF iN] False by (auto simp: own_pc_def)
    then have "(held v c' \<longleftrightarrow> (\<exists>j < nat n. in_region c' j))
        \<and> (\<forall>j < nat n. \<forall>k < nat n. in_region c' j \<and> in_region c' k \<longrightarrow> j = k)"
    proof cases
      case enter
      have ri: "in_region c' i" and hc: "held v c'"
        using enter False self held' by (cases v; auto simp: in_region_def entry_def held_def)+
      have nobody: "\<And>j. j < nat n \<Longrightarrow> \<not> in_region c j" using h enter by auto
      have "\<And>j. j < nat n \<Longrightarrow> in_region c' j \<Longrightarrow> j = i"
        using nobody reg_other by blast
      then show ?thesis using ri hc iN by blast
    next
      case wait
      have "threads c' i = threads c i" "held v c'"
        unfolding c'_def i_def using wait False True
        by (cases v; auto simp: step_simps held_def i_def)+
      then have "\<And>j. in_region c' j = in_region c j"
        using reg_other by (metis in_region_def)
      then show ?thesis using h me \<open>held v c'\<close> wait by auto
    next
      case inside
      have ri: "in_region c i" "in_region c' i"
        using inside self by (auto simp: in_region_def)
      have hc: "held v c' = held v c" using inside held' by auto
      have "\<And>j. in_region c' j = in_region c j"
        using reg_other ri by metis
      then show ?thesis using h me hc by auto
    next
      case leave
      have ri: "in_region c i" "\<not> in_region c' i" and hc: "\<not> held v c'"
        using leave self held' by (auto simp: in_region_def)
      have "\<And>j. j < nat n \<Longrightarrow> \<not> in_region c' j"
        using reg_other ri me iN by metis
      then show ?thesis using hc by auto
    next
      case out
      have ri: "\<not> in_region c i" "\<not> in_region c' i"
        using out self False by (cases v; auto simp: in_region_def entry_def)+
      have hc: "held v c' = held v c" using out held' by auto
      have "\<And>j. in_region c' j = in_region c j"
        using reg_other ri by metis
      then show ?thesis using h me hc by auto
    qed
    then show ?thesis using own' False by (simp add: lock_inv_def c'_def)
  qed
qed

lemma lock_inv_exec: "lock_inv v n c \<Longrightarrow> lock_inv v n (exec v n mc c sched)"
  by (induction sched arbitrary: c) (simp_all add: lock_inv_step)

section \<open>Runs\<close>

lemma exec_append: "exec v n mc c (s1 @ s2) = exec v n mc (exec v n mc c s1) s2"
  by (induction s1 arbitrary: c) simp_all

lemma exec_other:
  "\<forall>ch \<in> set sched. fst ch \<noteq> j \<Longrightarrow> threads (exec v n mc c sched) j = threads c j"
  by (induction sched arbitrary: c) (simp_all add: step_other)

section \<open>Every run can be brought to its end\<close>

text \<open>
  First the workers that are inside a call finish it, each by steps of its own
  (\<open>drain\<close>). Then, as long as a worker has not returned, the worker whose turn
  it is makes one call alone, or, once that worker has returned, any other
  worker does: either the counter moves towards the target or a worker returns.
\<close>

lemma midpot_entry [simp]: "midpot (entry v) = 0"
  by (cases v) (simp_all add: entry_def midpot_def)

lemma step_midpot:
  assumes "int i < n" and "0 < midpot (pc (threads c i))"
  shows "midpot (pc (threads (step v n mc (i, False) c) i)) < midpot (pc (threads c i))"
  using assms step_self_pc_cases [of "(i, False)" n v mc c] midpot_entry [of v]
  by (cases "pc (threads c i)") (auto simp: midpot_def simp del: midpot_entry)

lemma drain:
  "\<exists>sched. \<forall>i < nat n. midpot (pc (threads (exec v n mc c sched) i)) = 0"
proof (induction "\<Sum>i<nat n. midpot (pc (threads c i))" arbitrary: c rule: less_induct)
  case less
  show ?case
  proof (cases "\<forall>i < nat n. midpot (pc (threads c i)) = 0")
    case True
    then have "\<forall>i < nat n. midpot (pc (threads (exec v n mc c []) i)) = 0" by simp
    then show ?thesis by blast
  next
    case False
    then obtain i where i: "i < nat n" "0 < midpot (pc (threads c i))" by auto
    define c' where "c' = step v n mc (i, False) c"
    have lt: "midpot (pc (threads c' i)) < midpot (pc (threads c i))"
      unfolding c'_def using i by (intro step_midpot) auto
    have same: "\<And>j. j \<noteq> i \<Longrightarrow> threads c' j = threads c j"
      unfolding c'_def by (simp add: step_other)
    have "(\<Sum>j<nat n. midpot (pc (threads c' j))) < (\<Sum>j<nat n. midpot (pc (threads c j)))"
    proof (rule sum_strict_mono_ex1)
      show "finite {..<nat n}" by simp
      show "\<forall>j\<in>{..<nat n}. midpot (pc (threads c' j)) \<le> midpot (pc (threads c j))"
        using lt same by (metis less_imp_le order_refl)
      show "\<exists>j\<in>{..<nat n}. midpot (pc (threads c' j)) < midpot (pc (threads c j))"
        using lt i by auto
    qed
    from less[OF this] obtain sched where
      "\<forall>i < nat n. midpot (pc (threads (exec v n mc c' sched) i)) = 0" by blast
    then have "\<forall>j < nat n. midpot (pc (threads (exec v n mc c ((i, False) # sched)) j)) = 0"
      by (simp add: c'_def)
    then show ?thesis by blast
  qed
qed

lemma step_at:
  assumes "int i < n"
  shows
    "pc (threads c i) = SpinSetExpect \<Longrightarrow>
       step v n mc (i, sp) c = set_thread i ((threads c i)\<lparr>expect := 0, pc := SpinCAS\<rparr>) c"
    "pc (threads c i) = SpinCAS \<Longrightarrow> spin_lock c = expect (threads c i) \<Longrightarrow>
       step v n mc (i, False) c = set_thread i ((threads c i)\<lparr>pc := SpinSetExpect\<rparr>) (c\<lparr>spin_lock := 1\<rparr>)"
    "pc (threads c i) = SpinCAS \<Longrightarrow> spin_lock c \<noteq> expect (threads c i) \<Longrightarrow>
       step v n mc (i, sp) c = set_thread i ((threads c i)\<lparr>expect := spin_lock c, pc := TestTurn\<rparr>) c"
    "pc (threads c i) = FlagTAS \<Longrightarrow> \<not> std_spin_lock c \<Longrightarrow>
       step v n mc (i, sp) c = set_thread i ((threads c i)\<lparr>pc := TestTurn\<rparr>) (c\<lparr>std_spin_lock := True\<rparr>)"
    "pc (threads c i) = MutexLock \<Longrightarrow> \<not> m_locked c \<Longrightarrow>
       step v n mc (i, sp) c = set_thread i ((threads c i)\<lparr>pc := TestTurn\<rparr>) (c\<lparr>m_locked := True\<rparr>)"
    "pc (threads c i) = TestTurn \<Longrightarrow> val c smod n = int i \<Longrightarrow>
       step v n mc (i, sp) c = set_thread i ((threads c i)\<lparr>pc := IncLoad\<rparr>) c"
    "pc (threads c i) = TestTurn \<Longrightarrow> val c smod n \<noteq> int i \<Longrightarrow>
       step v n mc (i, sp) c = set_thread i ((threads c i)\<lparr>pc := CopyRet\<rparr>) c"
    "pc (threads c i) = IncLoad \<Longrightarrow>
       step v n mc (i, sp) c = set_thread i ((threads c i)\<lparr>tmp := val c, pc := IncStore\<rparr>) c"
    "pc (threads c i) = IncStore \<Longrightarrow>
       step v n mc (i, sp) c = set_thread i ((threads c i)\<lparr>pc := CopyRet\<rparr>)
          (c\<lparr>val := wrap32 (tmp (threads c i) + 1)\<rparr>)"
    "pc (threads c i) = CopyRet \<Longrightarrow>
       step v n mc (i, sp) c = set_thread i ((threads c i)\<lparr>ret := val c, pc := Unlock\<rparr>) c"
    "pc (threads c i) = Unlock \<Longrightarrow>
       step v n mc (i, sp) c = set_thread i ((threads c i)\<lparr>pc := LoopTest\<rparr>) (unlock v c)"
    "pc (threads c i) = LoopTest \<Longrightarrow>
       step v n mc (i, sp) c =
         set_thread i ((threads c i)\<lparr>pc := (if ret (threads c i) < mc then entry v else Returned)\<rparr>) c"
  using assms by (simp_all add: step_def compare_exchange_weak_def Let_def)

lemma set_thread_simps [simp]:
  "threads (set_thread i t c) i = t"
  "j \<noteq> i \<Longrightarrow> threads (set_thread i t c) j = threads c j"
  "val (set_thread i t c) = val c"
  "spin_lock (set_thread i t c) = spin_lock c"
  "std_spin_lock (set_thread i t c) = std_spin_lock c"
  "m_locked (set_thread i t c) = m_locked c"
  by (simp_all add: set_thread_def)

lemma unlock_simps [simp]:
  "threads (unlock v c) = threads c"
  "val (unlock v c) = val c"
  "m_locked (unlock Mutex c) = False"
  "std_spin_lock (unlock AtomicFlag c) = False"
  "spin_lock (unlock AtomicSpin c) = 0"
  by (simp_all add: unlock_def split: variant.splits)

lemma mutex_call_turn:
  assumes "int i < n" and "pc (threads c i) = MutexLock" and "\<not> m_locked c"
    and "val c smod n = int i"
  shows "val (exec Mutex n mc c (replicate 7 (i, False))) = wrap32 (val c + 1)
       \<and> pc (threads (exec Mutex n mc c (replicate 7 (i, False))) i)
           = (if wrap32 (val c + 1) < mc then MutexLock else Returned)
       \<and> \<not> m_locked (exec Mutex n mc c (replicate 7 (i, False)))"
  using assms by (simp add: numeral_eq_Suc step_at[OF assms(1)] entry_def)

lemma mutex_call_noturn:
  assumes "int i < n" and "pc (threads c i) = MutexLock" and "\<not> m_locked c"
    and "val c smod n \<noteq> int i"
  shows "val (exec Mutex n mc c (replicate 5 (i, False))) = val c
       \<and> pc (threads (exec Mutex n mc c (replicate 5 (i, False))) i)
           = (if val c < mc then MutexLock else Returned)
       \<and> \<not> m_locked (exec Mutex n mc c (replicate 5 (i, False)))"
  using assms by (simp add: numeral_eq_Suc step_at[OF assms(1)] entry_def)

lemma solo_call:
  assumes i: "int i < n" and e: "pc (threads c i) = entry v"
    and f: "v = AtomicFlag \<Longrightarrow> \<not> std_spin_lock c" and m: "v = Mutex \<Longrightarrow> \<not> m_locked c"
  shows "\<exists>k. val (exec v n mc c (replicate k (i, False)))
                = (if val c smod n = int i then wrap32 (val c + 1) else val c)
            \<and> pc (threads (exec v n mc c (replicate k (i, False))) i)
                = (if (if val c smod n = int i then wrap32 (val c + 1) else val c) < mc
                   then entry v else Returned)"
proof (cases v)
  case AtomicSpin
  show ?thesis
  proof (cases "spin_lock c = 0")
    case True
    show ?thesis
      by (rule exI [of _ "if val c smod n = int i then 10 else 8"])
        (use AtomicSpin True e in \<open>simp add: numeral_eq_Suc step_at[OF i] entry_def\<close>)
  next
    case False
    show ?thesis
      by (rule exI [of _ "if val c smod n = int i then 8 else 6"])
        (use AtomicSpin False e in \<open>simp add: numeral_eq_Suc step_at[OF i] entry_def\<close>)
  qed
next
  case AtomicFlag
  show ?thesis
    by (rule exI [of _ "if val c smod n = int i then 7 else 5"])
      (use AtomicFlag e f in \<open>simp add: numeral_eq_Suc step_at[OF i] entry_def\<close>)
next
  case Mutex
  show ?thesis
    by (rule exI [of _ "if val c smod n = int i then 7 else 5"])
      (use Mutex e m in \<open>simp add: numeral_eq_Suc step_at[OF i] entry_def\<close>)
qed

lemma val_inv_below_INT_MAX:
  assumes "val_inv n mc c" and "0 \<le> mc" and "mc + n \<le> INT_MAX" and "i < nat n"
    and "\<not> committed mc c i"
  shows "val c < INT_MAX"
proof -
  have "card {j. j < nat n \<and> committed mc c j} + 1 \<le> nat n"
    using assms(4,5) by (rule card_less_bound)
  moreover have "val c \<le> max (mc - 1) 0 + int (card {j. j < nat n \<and> committed mc c j})"
    using assms(1) by (simp add: val_inv_def)
  ultimately show ?thesis using assms(2,3,4) by (simp add: INT_MAX_def)
qed

lemma midpot_Returned [simp]: "midpot Returned = 0"
  by (simp add: midpot_def)

lemma quiet_pc:
  "own_pc v p \<Longrightarrow> midpot p = 0 \<Longrightarrow> p = entry v \<or> p = Returned"
  by (cases p) (auto simp: own_pc_def midpot_def)

lemma all_returned_iff: "all_returned n c \<longleftrightarrow> (\<forall>i < nat n. pc (threads c i) = Returned)"
  by (simp add: all_returned_def)

lemma finish_from_quiet:
  assumes npos: "0 < n" and mc0: "0 \<le> mc" and H: "mc + n \<le> INT_MAX"
  shows "val_inv n mc c \<Longrightarrow> lock_inv v n c
     \<Longrightarrow> \<forall>i < nat n. midpot (pc (threads c i)) = 0
     \<Longrightarrow> \<exists>sched. all_returned n (exec v n mc c sched)"
proof (induction "remaining n mc c" arbitrary: c rule: less_induct)
  case less
  note vi = less.prems(1) and li = less.prems(2) and q = less.prems(3)
  have pcs: "pc (threads c j) = entry v \<or> pc (threads c j) = Returned" if "j < nat n" for j
    using li q that by (intro quiet_pc) (auto simp: lock_inv_def)
  show ?case
  proof (cases "all_returned n c")
    case True
    then have "all_returned n (exec v n mc c [])" by simp
    then show ?thesis by blast
  next
    case False
    define t where "t = nat (val c mod n)"
    have v0: "0 \<le> val c" using vi by (simp add: val_inv_def)
    have tN: "t < nat n" and tval: "val c mod n = int t"
      using npos by (simp_all add: t_def nat_less_iff)
    have sm: "val c smod n = val c mod n" using v0 npos by (simp add: smod_nonneg)
    obtain i where iN: "i < nat n" and ie: "pc (threads c i) = entry v"
      and choice: "i = t \<or> pc (threads c t) = Returned"
    proof (cases "pc (threads c t) = Returned")
      case True
      obtain j where "j < nat n" "pc (threads c j) \<noteq> Returned"
        using False by (auto simp: all_returned_iff)
      then show ?thesis using that[of j] pcs True by auto
    next
      case False
      then show ?thesis using that[of t] pcs tN by auto
    qed
    have nobody: "\<not> in_region c j" if "j < nat n" for j
      using pcs[OF that] by (cases v) (auto simp: in_region_def entry_def)
    have free: "v = AtomicFlag \<Longrightarrow> \<not> std_spin_lock c" "v = Mutex \<Longrightarrow> \<not> m_locked c"
      using li nobody by (auto simp: lock_inv_def held_def)
    have ii: "int i < n" using iN by simp
    from solo_call [OF ii ie free, of mc] obtain k where
      val': "val (exec v n mc c (replicate k (i, False)))
                = (if val c smod n = int i then wrap32 (val c + 1) else val c)"
      and pc': "pc (threads (exec v n mc c (replicate k (i, False))) i)
                = (if (if val c smod n = int i then wrap32 (val c + 1) else val c) < mc
                   then entry v else Returned)"
      by blast
    define c' where "c' = exec v n mc c (replicate k (i, False))"
    have others: "threads c' j = threads c j" if "j \<noteq> i" for j
      unfolding c'_def using that by (intro exec_other) auto
    have vi': "val_inv n mc c'" unfolding c'_def using vi mc0 H by (rule val_inv_exec)
    have li': "lock_inv v n c'" unfolding c'_def using li by (rule lock_inv_exec)
    have nc: "\<not> committed mc c i"
      using ie by (cases v) (auto simp: committed_def entry_def)
    have lt: "val c < INT_MAX"
      using vi mc0 H iN nc by (rule val_inv_below_INT_MAX)
    have w: "wrap32 (val c + 1) = val c + 1"
      using v0 lt by (intro wrap32_id) (simp_all add: INT_MIN_def INT_MAX_def)
    have q': "\<forall>j < nat n. midpot (pc (threads c' j)) = 0"
    proof (intro allI impI)
      fix j assume "j < nat n"
      show "midpot (pc (threads c' j)) = 0"
      proof (cases "j = i")
        case True
        then show ?thesis using pc' by (simp add: c'_def)
      next
        case False
        then show ?thesis using others q \<open>j < nat n\<close> by simp
      qed
    qed
    have dec: "remaining n mc c' < remaining n mc c"
    proof (cases "i = t")
      case True
      then have turn: "val c smod n = int i" using sm tval by simp
      have v': "val c' = val c + 1" using val' turn w by (simp add: c'_def)
      show ?thesis
      proof (cases "val c + 1 < mc")
        case True
        have "pc (threads c' i) = entry v" using pc' turn w True by (simp add: c'_def)
        then have "\<And>j. pc (threads c' j) \<noteq> Returned \<longleftrightarrow> pc (threads c j) \<noteq> Returned"
          using others ie by (metis)
        then show ?thesis using v' True by (simp add: remaining_def)
      next
        case False
        have r: "pc (threads c' i) = Returned" using pc' turn w False by (simp add: c'_def)
        have "card {j. j < nat n \<and> pc (threads c' j) \<noteq> Returned} + 1
               \<le> card {j. j < nat n \<and> pc (threads c j) \<noteq> Returned}"
        proof (rule card_less_strict [where i = i])
          show "pc (threads c j) \<noteq> Returned" if "pc (threads c' j) \<noteq> Returned" for j
            using that others r by (cases "j = i") auto
          show "i < nat n" by (rule iN)
          show "\<not> pc (threads c' i) \<noteq> Returned" using r by simp
          show "pc (threads c i) \<noteq> Returned" using ie by (cases v) (auto simp: entry_def)
        qed
        then show ?thesis using v' by (simp add: remaining_def)
      qed
    next
      case False
      then have tr: "pc (threads c t) = Returned" using choice by simp
      have noturn: "val c smod n \<noteq> int i" using sm tval False by simp
      have "mc \<le> val c" using vi tN tr by (auto simp: val_inv_def thread_inv_def)
      then have v': "val c' = val c" and r: "pc (threads c' i) = Returned"
        using val' pc' noturn by (simp_all add: c'_def)
      have "card {j. j < nat n \<and> pc (threads c' j) \<noteq> Returned} + 1
             \<le> card {j. j < nat n \<and> pc (threads c j) \<noteq> Returned}"
      proof (rule card_less_strict [where i = i])
        show "pc (threads c j) \<noteq> Returned" if "pc (threads c' j) \<noteq> Returned" for j
          using that others r by (cases "j = i") auto
        show "i < nat n" by (rule iN)
        show "\<not> pc (threads c' i) \<noteq> Returned" using r by simp
        show "pc (threads c i) \<noteq> Returned" using ie by (cases v) (auto simp: entry_def)
      qed
      then show ?thesis using v' by (simp add: remaining_def)
    qed
    from less.hyps [OF dec vi' li' q'] obtain sched where
      "all_returned n (exec v n mc c' sched)" by blast
    then have "all_returned n (exec v n mc c (replicate k (i, False) @ sched))"
      by (simp add: exec_append c'_def)
    then show ?thesis by blast
  qed
qed

lemma can_terminate:
  assumes "0 < n" and "0 \<le> mc" and "mc + n \<le> INT_MAX"
    and "val_inv n mc c" and "lock_inv v n c"
  shows "\<exists>sched. all_returned n (exec v n mc c sched)"
proof -
  obtain s1 where q: "\<forall>i < nat n. midpot (pc (threads (exec v n mc c s1) i)) = 0"
    using drain by blast
  have "val_inv n mc (exec v n mc c s1)" using assms by (intro val_inv_exec)
  moreover have "lock_inv v n (exec v n mc c s1)" using assms by (intro lock_inv_exec)
  ultimately obtain s2 where "all_returned n (exec v n mc (exec v n mc c s1) s2)"
    using finish_from_quiet [OF assms(1,2,3)] q by blast
  then have "all_returned n (exec v n mc c (s1 @ s2))" by (simp add: exec_append)
  then show ?thesis by blast
qed

section \<open>The counter stays an \<^verbatim>\<open>int\<close>\<close>

lemma in_range_step: "in_range c \<Longrightarrow> in_range (step v n mc ch c)"
  using wrap32_range by (simp add: in_range_def step_val)

lemma in_range_exec: "in_range c \<Longrightarrow> in_range (exec v n mc c sched)"
  by (induction sched arbitrary: c) (simp_all add: in_range_step)

lemma in_range_initial: "initial v c \<Longrightarrow> in_range c"
  by (simp add: initial_def in_range_def INT_MIN_def INT_MAX_def)

lemma card_less_le: "card {j. j < (N::nat) \<and> P j} \<le> N"
  using card_less_mono [of N P "\<lambda>_. True"] by simp

section \<open>Without overflow the counter never goes down\<close>

lemma val_inv_step_val:
  assumes "val_inv n mc c" and "0 \<le> mc" and "mc + n \<le> INT_MAX"
  shows "val (step v n mc ch c) = val c \<or> val (step v n mc ch c) = val c + 1"
proof (cases "int (fst ch) < n \<and> pc (threads c (fst ch)) = IncStore")
  case False
  then show ?thesis by (auto simp: step_val)
next
  case True
  then have iN: "fst ch < nat n" by auto
  have nc: "\<not> committed mc c (fst ch)" using True by (simp add: committed_def)
  have lt: "val c < INT_MAX" using assms iN nc by (rule val_inv_below_INT_MAX)
  have "tmp (threads c (fst ch)) = val c" and "0 \<le> val c"
    using assms(1) iN True by (auto simp: val_inv_def thread_inv_def)
  then have "val (step v n mc ch c) = val c + 1"
    using True lt by (simp add: step_val wrap32_id INT_MIN_def INT_MAX_def)
  then show ?thesis by simp
qed

lemma val_inv_exec_mono:
  assumes "0 \<le> mc" and "mc + n \<le> INT_MAX"
  shows "val_inv n mc c \<Longrightarrow> val c \<le> val (exec v n mc c sched)"
proof (induction sched arbitrary: c)
  case Nil
  then show ?case by simp
next
  case (Cons ch sched)
  have "val c \<le> val (step v n mc ch c)"
    using val_inv_step_val [OF Cons.prems assms, of v ch] by auto
  moreover have "val (step v n mc ch c) \<le> val (exec v n mc (step v n mc ch c) sched)"
    using Cons.prems assms by (intro Cons.IH val_inv_step)
  ultimately show ?case by simp
qed

section \<open>Two workers taking turns\<close>

text \<open>
  One round: worker 0 makes a call alone, then worker 1 does; from an even
  counter below the target each of them increments it.
\<close>

lemma round2:
  assumes q: "quiet2 V c" and V: "0 \<le> V" "V mod 2 = 0" "V + 2 < mc" "V + 2 \<le> INT_MAX"
  shows "quiet2 (V + 2) (exec Mutex 2 mc c (replicate 7 (0, False) @ replicate 7 (1, False)))"
proof -
  define c1 where "c1 = exec Mutex 2 mc c (replicate 7 (0, False))"
  have t0: "val c smod 2 = int 0" using q V by (simp add: quiet2_def smod_nonneg)
  have w0: "wrap32 (val c + 1) = V + 1"
    using q V by (simp add: quiet2_def wrap32_id INT_MIN_def INT_MAX_def)
  have a: "val c1 = V + 1 \<and> pc (threads c1 0) = MutexLock \<and> \<not> m_locked c1"
    using mutex_call_turn [of 0 2 c mc] q t0 w0 V by (simp add: c1_def quiet2_def)
  have b: "threads c1 1 = threads c 1"
    unfolding c1_def by (intro exec_other) auto
  define c2 where "c2 = exec Mutex 2 mc c1 (replicate 7 (1, False))"
  have t1: "val c1 smod 2 = int 1" using a V by (simp add: smod_nonneg) presburger
  have w1: "wrap32 (val c1 + 1) = V + 2"
    using a V by (simp add: wrap32_id INT_MIN_def INT_MAX_def)
  have a2: "val c2 = V + 2 \<and> pc (threads c2 1) = MutexLock \<and> \<not> m_locked c2"
    using mutex_call_turn [of 1 2 c1 mc] a b q t1 w1 V by (simp add: c2_def quiet2_def)
  have b2: "threads c2 0 = threads c1 0"
    unfolding c2_def by (intro exec_other) auto
  show ?thesis using a a2 b2 by (simp add: quiet2_def exec_append c1_def c2_def)
qed

lemma rounds2:
  "quiet2 V c \<Longrightarrow> 0 \<le> V \<Longrightarrow> V mod 2 = 0 \<Longrightarrow> V + 2 * int k < mc \<Longrightarrow> mc \<le> INT_MAX
     \<Longrightarrow> quiet2 (V + 2 * int k) (exec Mutex 2 mc c (alternate k))"
  unfolding alternate_def
proof (induction k arbitrary: V c)
  case 0
  then show ?case by simp
next
  case (Suc k)
  let ?r = "replicate 7 (0, False) @ replicate 7 (1, False)"
  have q: "quiet2 (V + 2) (exec Mutex 2 mc c ?r)"
    using Suc.prems by (intro round2) auto
  have "quiet2 (V + 2 + 2 * int k) (exec Mutex 2 mc (exec Mutex 2 mc c ?r) (concat (replicate k ?r)))"
    using Suc.prems by (intro Suc.IH q) auto
  then show ?case
    by (simp only: replicate_Suc concat.simps exec_append of_nat_Suc) (simp add: algebra_simps)
qed

section \<open>Increments and turns\<close>

lemma turns_mono: "V \<le> W \<Longrightarrow> turns n i V \<le> turns n i W"
  by (induction W) (auto simp: le_Suc_eq)

lemma increments_turns:
  assumes "0 \<le> mc" and "mc + n \<le> INT_MAX"
  shows "val_inv n mc c \<Longrightarrow> i < nat n \<Longrightarrow>
     increments v n mc c sched i + turns n i (nat (val c))
       = turns n i (nat (val (exec v n mc c sched)))"
proof (induction sched arbitrary: c)
  case Nil
  then show ?case by simp
next
  case (Cons ch sched)
  define c' where "c' = step v n mc ch c"
  have vi': "val_inv n mc c'" unfolding c'_def using Cons.prems(1) assms by (rule val_inv_step)
  have IH: "increments v n mc c' sched i + turns n i (nat (val c'))
       = turns n i (nat (val (exec v n mc c' sched)))"
    using vi' Cons.prems(2) by (rule Cons.IH)
  have v0: "0 \<le> val c" using Cons.prems(1) by (simp add: val_inv_def)
  have st: "(if fst ch = i \<and> int i < n \<and> pc (threads c i) = IncStore then 1 else 0)
       + turns n i (nat (val c)) = turns n i (nat (val c'))"
  proof (cases "int (fst ch) < n \<and> pc (threads c (fst ch)) = IncStore")
    case False
    then have "val c' = val c" by (auto simp: c'_def step_val)
    moreover have "\<not> (fst ch = i \<and> int i < n \<and> pc (threads c i) = IncStore)"
      using False by auto
    ultimately show ?thesis by simp
  next
    case True
    then have jN: "fst ch < nat n" by auto
    have nc: "\<not> committed mc c (fst ch)" using True by (simp add: committed_def)
    have lt: "val c < INT_MAX"
      using Cons.prems(1) assms jN nc by (rule val_inv_below_INT_MAX)
    have tj: "tmp (threads c (fst ch)) = val c" and turn: "val c mod n = int (fst ch)"
      using Cons.prems(1) jN True by (auto simp: val_inv_def thread_inv_def)
    have v': "val c' = val c + 1"
      using True tj v0 lt by (simp add: c'_def step_val wrap32_id INT_MIN_def INT_MAX_def)
    have "nat (val c') = Suc (nat (val c))" using v' v0 by simp
    then show ?thesis using True turn v0 Cons.prems(2) by auto
  qed
  show ?case using IH st by (simp add: c'_def)
qed

section \<open>The counter at the end of a run\<close>

lemma final_bounds:
  assumes "initial v c0" and "0 < n" and "0 \<le> mc" and "mc + n \<le> INT_MAX"
    and "all_returned n (exec v n mc c0 sched)"
  shows "mc \<le> val (exec v n mc c0 sched) \<and> val (exec v n mc c0 sched) \<le> max (mc - 1) 0 + n"
proof -
  have vi: "val_inv n mc (exec v n mc c0 sched)"
    using assms by (intro val_inv_exec val_inv_initial)
  have "0 < nat n" using assms(2) by simp
  then have "pc (threads (exec v n mc c0 sched) 0) = Returned"
    using assms(5) by (simp add: all_returned_def)
  moreover have "thread_inv n mc (exec v n mc c0 sched) 0"
    using vi \<open>0 < nat n\<close> unfolding val_inv_def by blast
  ultimately have lo: "mc \<le> val (exec v n mc c0 sched)"
    by (simp add: thread_inv_def)
  have "val (exec v n mc c0 sched)
      \<le> max (mc - 1) 0 + int (card {i. i < nat n \<and> committed mc (exec v n mc c0 sched) i})"
    using vi by (simp add: val_inv_def)
  moreover have "card {i. i < nat n \<and> committed mc (exec v n mc c0 sched) i} \<le> nat n"
    by (rule card_less_le)
  ultimately show ?thesis using lo assms(2) by simp
qed

lemma mutex_run_4_100:
  "all_returned 4 (exec Mutex 4 100 (init Mutex) sched_4_100)
   \<and> val (exec Mutex 4 100 (init Mutex) sched_4_100) = 103
   \<and> increments Mutex 4 100 (init Mutex) sched_4_100 0 = 26"
  by code_simp

lemma initial_init: "initial v (init v)"
  by (simp add: initial_def init_def)

section \<open>The flag and the mutex step by step\<close>

lemma corr_step:
  assumes "corr c d"
  shows "corr (step AtomicFlag n mc ch c) (step Mutex n mc ch d)"
proof (cases "int (fst ch) < n")
  case False
  then show ?thesis using assms by (simp add: step_not_thread)
next
  case True
  define i where "i = fst ch"
  have oc: "\<And>j. j \<noteq> i \<Longrightarrow> threads (step AtomicFlag n mc ch c) j = threads c j"
    and od: "\<And>j. j \<noteq> i \<Longrightarrow> threads (step Mutex n mc ch d) j = threads d j"
    by (simp_all add: i_def step_other)
  have ci: "pc_corr (pc (threads c i)) (pc (threads d i))"
    "pc (threads c i) = IncStore \<longrightarrow> tmp (threads c i) = tmp (threads d i)"
    "pc (threads c i) \<in> {Unlock, LoopTest} \<longrightarrow> ret (threads c i) = ret (threads d i)"
    and vv: "val c = val d" and ll: "std_spin_lock c = m_locked d"
    using assms by (auto simp: corr_def)
  have self: "pc_corr (pc (threads (step AtomicFlag n mc ch c) i)) (pc (threads (step Mutex n mc ch d) i))
      \<and> (pc (threads (step AtomicFlag n mc ch c) i) = IncStore \<longrightarrow>
            tmp (threads (step AtomicFlag n mc ch c) i) = tmp (threads (step Mutex n mc ch d) i))
      \<and> (pc (threads (step AtomicFlag n mc ch c) i) \<in> {Unlock, LoopTest} \<longrightarrow>
            ret (threads (step AtomicFlag n mc ch c) i) = ret (threads (step Mutex n mc ch d) i))
      \<and> val (step AtomicFlag n mc ch c) = val (step Mutex n mc ch d)
      \<and> std_spin_lock (step AtomicFlag n mc ch c) = m_locked (step Mutex n mc ch d)"
    using ci vv ll True unfolding i_def
    by (cases "pc (threads c (fst ch))"; cases "pc (threads d (fst ch))")
       (auto simp: pc_corr_def step_simps)
  show ?thesis
    unfolding corr_def
  proof (intro conjI allI)
    show "val (step AtomicFlag n mc ch c) = val (step Mutex n mc ch d)" using self by simp
    show "std_spin_lock (step AtomicFlag n mc ch c) = m_locked (step Mutex n mc ch d)"
      using self by simp
    fix j
    show "pc_corr (pc (threads (step AtomicFlag n mc ch c) j)) (pc (threads (step Mutex n mc ch d) j))"
      using self oc od assms by (cases "j = i") (auto simp: corr_def)
    show "pc (threads (step AtomicFlag n mc ch c) j) = IncStore \<longrightarrow>
        tmp (threads (step AtomicFlag n mc ch c) j) = tmp (threads (step Mutex n mc ch d) j)"
      using self oc od assms by (cases "j = i") (auto simp: corr_def)
    show "pc (threads (step AtomicFlag n mc ch c) j) \<in> {Unlock, LoopTest} \<longrightarrow>
        ret (threads (step AtomicFlag n mc ch c) j) = ret (threads (step Mutex n mc ch d) j)"
      using self oc od assms by (cases "j = i") (auto simp: corr_def)
  qed
qed

lemma corr_exec: "corr c d \<Longrightarrow> corr (exec AtomicFlag n mc c sched) (exec Mutex n mc d sched)"
  by (induction sched arbitrary: c d) (simp_all add: corr_step)

lemma corr_initial: "initial AtomicFlag c \<Longrightarrow> initial Mutex d \<Longrightarrow> corr c d"
  by (simp add: corr_def initial_def pc_corr_def entry_def)

lemma pc_corr_Returned: "pc_corr p q \<Longrightarrow> p = Returned \<longleftrightarrow> q = Returned"
  by (auto simp: pc_corr_def)

lemma corr_all_returned:
  assumes "corr c d"
  shows "all_returned n c \<longleftrightarrow> all_returned n d"
proof -
  have "pc (threads c i) = Returned \<longleftrightarrow> pc (threads d i) = Returned" for i
    using assms by (intro pc_corr_Returned) (simp add: corr_def)
  then show ?thesis by (simp add: all_returned_def)
qed

section \<open>Leaving the loop\<close>

lemma returned_stays:
  "pc (threads c i) = Returned \<Longrightarrow> threads (exec v n mc c sched) i = threads c i"
proof (induction sched arbitrary: c)
  case Nil
  then show ?case by simp
next
  case (Cons ch sched)
  have "threads (step v n mc ch c) i = threads c i"
  proof (cases "fst ch = i")
    case True
    then have "step v n mc ch c = c" using Cons.prems by (simp add: step_def Let_def)
    then show ?thesis by simp
  next
    case False
    then show ?thesis by (simp add: step_other)
  qed
  then show ?case using Cons by simp
qed

lemma step_returned_iff:
  assumes "int i < n"
  shows "pc (threads (step v n mc ch c) i) = Returned \<longleftrightarrow>
     pc (threads c i) = Returned
     \<or> (fst ch = i \<and> pc (threads c i) = LoopTest \<and> mc \<le> ret (threads c i))"
proof (cases "fst ch = i")
  case False
  then show ?thesis by (simp add: step_other)
next
  case True
  have e: "entry v \<noteq> Returned" by (cases v) (simp_all add: entry_def)
  show ?thesis
    using step_self_pc_cases [of ch n v mc c] assms True e
    by (cases "pc (threads c i)") (auto split: if_splits)
qed

lemma exit_inv_step: "exit_inv mc c \<Longrightarrow> exit_inv mc (step v n mc ch c)"
  unfolding exit_inv_def
proof (intro allI impI)
  fix i
  assume inv: "\<forall>i. pc (threads c i) = Returned \<longrightarrow> mc \<le> ret (threads c i)"
    and r: "pc (threads (step v n mc ch c) i) = Returned"
  show "mc \<le> ret (threads (step v n mc ch c) i)"
  proof (cases "fst ch = i \<and> int i < n")
    case False
    then have "threads (step v n mc ch c) i = threads c i"
      by (cases "fst ch = i") (simp_all add: step_other step_not_thread)
    then show ?thesis using inv r by simp
  next
    case True
    have e: "entry v \<noteq> Returned" by (cases v) (simp_all add: entry_def)
    show ?thesis
      using step_self_pc_cases [of ch n v mc c] True r inv e
      by (cases "pc (threads c i)") (auto split: if_splits)
  qed
qed

lemma exit_inv_exec: "exit_inv mc c \<Longrightarrow> exit_inv mc (exec v n mc c sched)"
  by (induction sched arbitrary: c) (simp_all add: exit_inv_step)

lemma exit_inv_initial: "initial v c \<Longrightarrow> exit_inv mc c"
  by (cases v) (simp_all add: initial_def exit_inv_def entry_def)

section \<open>What a worker copies under a working lock\<close>

lemma succ_mod_neq: "2 \<le> n \<Longrightarrow> (x + 1) mod n \<noteq> x mod (n::int)"
proof
  assume n: "2 \<le> n" and "(x + 1) mod n = x mod n"
  then have "n dvd (x + 1 - x)" by (simp only: mod_eq_dvd_iff)
  then have "n dvd 1" by simp
  then show False using n by simp
qed

lemma above_inv_step:
  assumes vi: "val_inv n mc c" and li: "lock_inv v n c" and ai: "above_inv n c"
    and H: "0 \<le> mc" "mc + n \<le> INT_MAX" and n2: "2 \<le> n" and v: "v \<noteq> AtomicSpin"
  shows "above_inv n (step v n mc ch c)"
proof (cases "int (fst ch) < n")
  case False
  then show ?thesis using ai by (simp add: step_not_thread)
next
  case True
  define i where "i = fst ch"
  define c' where "c' = step v n mc ch c"
  have iN: "i < nat n" using True by (auto simp: i_def)
  have v0: "0 \<le> val c" using vi by (simp add: val_inv_def)
  have sm: "val c smod n = val c mod n" using v0 n2 by (simp add: smod_nonneg)
  have other: "\<And>j. j \<noteq> i \<Longrightarrow> threads c' j = threads c j"
    by (simp add: c'_def i_def step_other)
  have self: "threads c' i = (case pc (threads c i) of
        SpinSetExpect \<Rightarrow> (threads c i)\<lparr>expect := 0, pc := SpinCAS\<rparr>
      | SpinCAS \<Rightarrow> (if spin_lock c = expect (threads c i) \<and> \<not> snd ch
                      then (threads c i)\<lparr>pc := SpinSetExpect\<rparr>
                      else (threads c i)\<lparr>expect := spin_lock c, pc := TestTurn\<rparr>)
      | FlagTAS \<Rightarrow> (if std_spin_lock c then threads c i else (threads c i)\<lparr>pc := TestTurn\<rparr>)
      | MutexLock \<Rightarrow> (if m_locked c then threads c i else (threads c i)\<lparr>pc := TestTurn\<rparr>)
      | TestTurn \<Rightarrow> (threads c i)\<lparr>pc := (if val c smod n = int i then IncLoad else CopyRet)\<rparr>
      | IncLoad \<Rightarrow> (threads c i)\<lparr>tmp := val c, pc := IncStore\<rparr>
      | IncStore \<Rightarrow> (threads c i)\<lparr>pc := CopyRet\<rparr>
      | CopyRet \<Rightarrow> (threads c i)\<lparr>ret := val c, pc := Unlock\<rparr>
      | Unlock \<Rightarrow> (threads c i)\<lparr>pc := LoopTest\<rparr>
      | LoopTest \<Rightarrow> (threads c i)\<lparr>pc := (if ret (threads c i) < mc then entry v else Returned)\<rparr>
      | Returned \<Rightarrow> threads c i)"
    unfolding c'_def i_def using True by (rule step_self_pc_cases)
  have ent: "entry v \<notin> {TestTurn, IncLoad, IncStore, CopyRet, Unlock, LoopTest, Returned}"
    by (cases v) (simp_all add: entry_def)
  have step_v: "val c' = val c \<or> val c' = val c + 1"
    unfolding c'_def using vi H by (rule val_inv_step_val)
  have aj: "\<And>j. j < nat n \<Longrightarrow>
        (pc (threads c j) = CopyRet \<longrightarrow> val c mod n \<noteq> int j)
      \<and> (pc (threads c j) \<in> {Unlock, LoopTest, Returned} \<longrightarrow>
           ret (threads c j) mod n \<noteq> int j \<and> ret (threads c j) \<le> val c)"
    using ai by (simp add: above_inv_def)
  have me: "\<And>j k. j < nat n \<Longrightarrow> k < nat n \<Longrightarrow> in_region c j \<Longrightarrow> in_region c k \<Longrightarrow> j = k"
    using li v by (auto simp: lock_inv_def)
  show ?thesis
    unfolding above_inv_def c'_def [symmetric]
  proof (intro allI impI)
    fix j assume jN: "j < nat n"
    show "(pc (threads c' j) = CopyRet \<longrightarrow> val c' mod n \<noteq> int j)
      \<and> (pc (threads c' j) \<in> {Unlock, LoopTest, Returned} \<longrightarrow>
           ret (threads c' j) mod n \<noteq> int j \<and> ret (threads c' j) \<le> val c')"
    proof (cases "j = i")
      case False
      show ?thesis
      proof (cases "pc (threads c i) = IncStore")
        case True
        then have ri: "in_region c i" by (simp add: in_region_def)
        have "\<not> in_region c j" using me [OF jN iN] ri False by blast
        then have "pc (threads c j) \<noteq> CopyRet" "pc (threads c j) \<noteq> Unlock"
          by (auto simp: in_region_def)
        then show ?thesis using aj [OF jN] other [OF False] step_v by auto
      next
        case False
        then have "val c' = val c" by (simp add: c'_def step_val i_def)
        then show ?thesis using aj [OF jN] other [OF \<open>j \<noteq> i\<close>] by simp
      qed
    next
      case True
      show ?thesis
      proof (cases "pc (threads c i) = IncStore")
        case True
        have turn: "val c mod n = int i" and tmp: "tmp (threads c i) = val c"
          using vi iN True by (auto simp: val_inv_def thread_inv_def)
        have nc: "\<not> committed mc c i" using True by (simp add: committed_def)
        have lt: "val c < INT_MAX" using vi H iN nc by (rule val_inv_below_INT_MAX)
        have v': "val c' = val c + 1"
          using True tmp v0 lt \<open>int (fst ch) < n\<close>
          by (simp add: c'_def step_val i_def wrap32_id INT_MIN_def INT_MAX_def)
        have "(val c + 1) mod n \<noteq> int i" using succ_mod_neq [OF n2, of "val c"] turn by simp
        then show ?thesis using self True v' \<open>j = i\<close> by simp
      next
        case False
        then have v': "val c' = val c" by (simp add: c'_def step_val i_def)
        show ?thesis using self v' False aj [OF iN] sm ent \<open>j = i\<close>
          by (cases "pc (threads c i)") (auto split: if_splits)
      qed
    qed
  qed
qed

lemma above_inv_exec:
  assumes "0 \<le> mc" and "mc + n \<le> INT_MAX" and "2 \<le> n" and "v \<noteq> AtomicSpin"
  shows "val_inv n mc c \<Longrightarrow> lock_inv v n c \<Longrightarrow> above_inv n c
     \<Longrightarrow> above_inv n (exec v n mc c sched)"
proof (induction sched arbitrary: c)
  case Nil
  then show ?case by simp
next
  case (Cons ch sched)
  have "val_inv n mc (step v n mc ch c)" using Cons.prems(1) assms(1,2) by (rule val_inv_step)
  moreover have "lock_inv v n (step v n mc ch c)" using Cons.prems(2) by (rule lock_inv_step)
  moreover have "above_inv n (step v n mc ch c)"
    using Cons.prems assms by (intro above_inv_step)
  ultimately show ?case using Cons.IH by simp
qed

lemma above_inv_initial: "initial v c \<Longrightarrow> above_inv n c"
  by (cases v) (simp_all add: initial_def above_inv_def entry_def)

lemma protected_region_pos:
  "0 < n \<Longrightarrow> protected_region n i x =
     Inr (if x smod n = i then wrap32 (x + 1) else x, if x smod n = i then wrap32 (x + 1) else x)"
  by (simp add: protected_region_def Let_def)

section \<open>Two workers and the target \<open>INT_MAX\<close>\<close>

text \<open>
  After 1073741823 rounds the counter is \<open>INT_MAX - 1\<close>. Worker 0 stores \<open>INT_MAX\<close>
  and returns. It is then the turn of worker 1: its \<^verbatim>\<open>val++\<close> overflows, its copy
  is \<open>INT_MIN\<close> and it goes on calling.
\<close>

lemma wrap_run:
  "val (exec Mutex 2 INT_MAX (init Mutex) (alternate 1073741823 @ replicate 7 (0, False)))
     = INT_MAX
   \<and> val (exec Mutex 2 INT_MAX (init Mutex)
          (alternate 1073741823 @ replicate 7 (0, False) @ replicate 7 (1, False)))
     = INT_MIN
   \<and> pc (threads (exec Mutex 2 INT_MAX (init Mutex)
          (alternate 1073741823 @ replicate 7 (0, False) @ replicate 7 (1, False))) 0)
     = Returned
   \<and> pc (threads (exec Mutex 2 INT_MAX (init Mutex)
          (alternate 1073741823 @ replicate 7 (0, False) @ replicate 7 (1, False))) 1)
     = MutexLock"
proof -
  define S :: "(nat \<times> bool) list"
    where "S = alternate 1073741823"
  define c where "c = exec Mutex 2 INT_MAX (init Mutex) S"
  define c1 where "c1 = exec Mutex 2 INT_MAX c (replicate 7 (0, False))"
  define c2 where "c2 = exec Mutex 2 INT_MAX c1 (replicate 7 (1, False))"
  have q0: "quiet2 0 (init Mutex)"
    by (simp add: quiet2_def init_def entry_def)
  have "quiet2 (0 + 2 * int 1073741823) c"
    unfolding c_def S_def using q0 by (rule rounds2) (simp_all add: INT_MAX_def)
  then have q: "quiet2 2147483646 c" by simp
  have t0: "val c smod 2 = int 0"
    using q by (simp add: quiet2_def signed_modulo_int_def)
  have a: "val c1 = wrap32 (val c + 1)
      \<and> pc (threads c1 0) = (if wrap32 (val c + 1) < INT_MAX then MutexLock else Returned)
      \<and> \<not> m_locked c1"
    unfolding c1_def using q t0 by (intro mutex_call_turn) (simp_all add: quiet2_def)
  have v1: "val c1 = 2147483647" using a q by (simp add: quiet2_def wrap32_def)
  have r0: "pc (threads c1 0) = Returned" using a v1 by (simp add: INT_MAX_def)
  have b: "threads c1 1 = threads c 1"
    unfolding c1_def by (intro exec_other) auto
  have t1: "val c1 smod 2 = int 1"
    using v1 by (simp add: signed_modulo_int_def)
  have a2: "val c2 = wrap32 (val c1 + 1)
      \<and> pc (threads c2 1) = (if wrap32 (val c1 + 1) < INT_MAX then MutexLock else Returned)"
    unfolding c2_def using a b q t1 mutex_call_turn [of 1 2 c1 INT_MAX] by (simp add: quiet2_def)
  have v2: "val c2 = - 2147483648" using a2 v1 by (simp add: wrap32_def)
  have p1: "pc (threads c2 1) = MutexLock" using a2 v1 by (simp add: wrap32_def INT_MAX_def)
  have p0: "pc (threads c2 0) = Returned"
    unfolding c2_def using r0 by (simp add: returned_stays)
  show ?thesis
    using v1 v2 p0 p1 unfolding c2_def c1_def c_def S_def
    by (simp add: exec_append INT_MAX_def INT_MIN_def)
qed

lemma stuck_step:
  assumes "stuck mc c" and "0 \<le> mc"
  shows "stuck mc (step Mutex 2 mc ch c)"
proof (cases "fst ch = 1")
  case False
  have "threads (step Mutex 2 mc ch c) 1 = threads c 1"
    using False by (simp add: step_other)
  moreover have "threads (step Mutex 2 mc ch c) 0 = threads c 0"
    using assms(1) returned_stays [of c 0 Mutex 2 mc "[ch]"] by (simp add: stuck_def)
  moreover have "val (step Mutex 2 mc ch c) = val c"
    using assms(1) False by (cases "fst ch = 0") (auto simp: step_val stuck_def)
  ultimately show ?thesis using assms(1) by (simp add: stuck_def)
next
  case True
  have o: "threads (step Mutex 2 mc ch c) 0 = threads c 0"
    using True by (simp add: step_other)
  have sm: "val c smod 2 \<noteq> int 1"
    using assms(1) by (simp add: stuck_def INT_MIN_def signed_modulo_int_def)
  have lt: "INT_MIN < mc" using assms(2) by (simp add: INT_MIN_def)
  have s: "threads (step Mutex 2 mc ch c) 1 = (case pc (threads c 1) of
        SpinSetExpect \<Rightarrow> (threads c 1)\<lparr>expect := 0, pc := SpinCAS\<rparr>
      | SpinCAS \<Rightarrow> (if spin_lock c = expect (threads c 1) \<and> \<not> snd ch
                      then (threads c 1)\<lparr>pc := SpinSetExpect\<rparr>
                      else (threads c 1)\<lparr>expect := spin_lock c, pc := TestTurn\<rparr>)
      | FlagTAS \<Rightarrow> (if std_spin_lock c then threads c 1 else (threads c 1)\<lparr>pc := TestTurn\<rparr>)
      | MutexLock \<Rightarrow> (if m_locked c then threads c 1 else (threads c 1)\<lparr>pc := TestTurn\<rparr>)
      | TestTurn \<Rightarrow> (threads c 1)\<lparr>pc := (if val c smod 2 = int 1 then IncLoad else CopyRet)\<rparr>
      | IncLoad \<Rightarrow> (threads c 1)\<lparr>tmp := val c, pc := IncStore\<rparr>
      | IncStore \<Rightarrow> (threads c 1)\<lparr>pc := CopyRet\<rparr>
      | CopyRet \<Rightarrow> (threads c 1)\<lparr>ret := val c, pc := Unlock\<rparr>
      | Unlock \<Rightarrow> (threads c 1)\<lparr>pc := LoopTest\<rparr>
      | LoopTest \<Rightarrow> (threads c 1)\<lparr>pc := (if ret (threads c 1) < mc then entry Mutex else Returned)\<rparr>
      | Returned \<Rightarrow> threads c 1)"
    using step_self_pc_cases [of ch 2 Mutex mc c] unfolding True by simp
  have v: "val (step Mutex 2 mc ch c) = val c"
    using assms(1) True by (auto simp: step_val stuck_def)
  show ?thesis
    using assms(1) o s v sm lt
    by (cases "pc (threads c 1)") (auto simp: stuck_def entry_def split: if_splits)
qed

lemma stuck_exec: "stuck mc c \<Longrightarrow> 0 \<le> mc \<Longrightarrow> stuck mc (exec Mutex 2 mc c sched)"
  by (induction sched arbitrary: c) (simp_all add: stuck_step)

section \<open>Increments once the target is reached\<close>

lemma committed_step:
  assumes vi: "val_inv n mc c" and H: "0 \<le> mc" "mc + n \<le> INT_MAX"
    and j: "j < nat n" and cj: "committed mc c j"
  shows "committed mc (step v n mc ch c) j"
proof -
  have mono: "val c \<le> val (step v n mc ch c)"
    using val_inv_step_val [OF vi H, of v ch] by auto
  show ?thesis
  proof (cases "fst ch = j")
    case False
    then have "threads (step v n mc ch c) j = threads c j" by (simp add: step_other)
    then show ?thesis using cj mono by (auto simp: committed_def)
  next
    case True
    have i: "int (fst ch) < n" using j True by simp
    have ti: "thread_inv n mc c j" using vi j by (simp add: val_inv_def)
    show ?thesis
      using step_self_pc_cases [OF i, of v mc c] cj mono ti unfolding True
      by (cases "pc (threads c j)") (auto simp: committed_def thread_inv_def split: if_splits)
  qed
qed

lemma increments_after_target:
  assumes H: "0 \<le> mc" "mc + n \<le> INT_MAX" and i: "i < nat n"
  shows "val_inv n mc c \<Longrightarrow> mc \<le> val c
     \<Longrightarrow> increments v n mc c sched i \<le> (if committed mc c i then 0 else 1)"
proof (induction sched arbitrary: c)
  case Nil
  then show ?case by simp
next
  case (Cons ch sched)
  define c' where "c' = step v n mc ch c"
  have vi': "val_inv n mc c'" unfolding c'_def using Cons.prems(1) H by (rule val_inv_step)
  have mono: "val c \<le> val c'"
    unfolding c'_def using val_inv_step_val [OF Cons.prems(1) H, of v ch] by auto
  then have ge': "mc \<le> val c'" using Cons.prems(2) by simp
  have IH: "increments v n mc c' sched i \<le> (if committed mc c' i then 0 else 1)"
    using vi' ge' by (rule Cons.IH)
  show ?case
  proof (cases "fst ch = i \<and> int i < n \<and> pc (threads c i) = IncStore")
    case True
    have nc: "\<not> committed mc c i" using True by (simp add: committed_def)
    have "pc (threads c' i) = CopyRet"
      unfolding c'_def using step_self_pc_cases [of ch n v mc c] True by auto
    then have "committed mc c' i" using ge' by (simp add: committed_def)
    then have "increments v n mc c' sched i = 0" using IH by simp
    then show ?thesis using True nc by (simp add: c'_def)
  next
    case False
    have "committed mc c i \<Longrightarrow> committed mc c' i"
      unfolding c'_def using Cons.prems(1) H i by (intro committed_step)
    then have "(if committed mc c' i then 0 else 1) \<le> (if committed mc c i then 0 else (1::nat))"
      by simp
    moreover have "increments v n mc c (ch # sched) i = increments v n mc c' sched i"
      using False by (auto simp: c'_def)
    ultimately show ?thesis using IH by linarith
  qed
qed

section \<open>Coming to the loop test\<close>

text \<open>
  A worker that has returned was at its loop test before; a worker about to call
  on a free lock comes to its loop test by steps of its own; so every worker that
  has not returned can be brought to its loop test, after the calls under way
  have been finished.
\<close>

lemma returned_via_looptest:
  assumes "int i < n"
  shows "pc (threads c i) \<noteq> Returned \<Longrightarrow> pc (threads (exec v n mc c s) i) = Returned \<Longrightarrow>
     \<exists>p. pc (threads (exec v n mc c p) i) = LoopTest"
proof (induction s arbitrary: c)
  case Nil
  then show ?case by simp
next
  case (Cons ch s)
  show ?case
  proof (cases "pc (threads (step v n mc ch c) i) = Returned")
    case True
    then have "pc (threads c i) = LoopTest"
      using Cons.prems(1) assms by (simp add: step_returned_iff)
    then have "pc (threads (exec v n mc c []) i) = LoopTest" by simp
    then show ?thesis by blast
  next
    case False
    from Cons.IH [OF False] Cons.prems(2)
    obtain p where "pc (threads (exec v n mc (step v n mc ch c) p) i) = LoopTest" by auto
    then have "pc (threads (exec v n mc c (ch # p)) i) = LoopTest" by simp
    then show ?thesis by blast
  qed
qed

lemma solo_to_looptest:
  assumes i: "int i < n" and e: "pc (threads c i) = entry v"
    and f: "v = AtomicFlag \<Longrightarrow> \<not> std_spin_lock c" and m: "v = Mutex \<Longrightarrow> \<not> m_locked c"
  shows "\<exists>k. pc (threads (exec v n mc c (replicate k (i, False))) i) = LoopTest"
proof (cases v)
  case AtomicSpin
  show ?thesis
  proof (cases "spin_lock c = 0")
    case True
    show ?thesis
      by (rule exI [of _ "if val c smod n = int i then 9 else 7"])
        (use AtomicSpin True e in \<open>simp add: numeral_eq_Suc step_at[OF i] entry_def\<close>)
  next
    case False
    show ?thesis
      by (rule exI [of _ "if val c smod n = int i then 7 else 5"])
        (use AtomicSpin False e in \<open>simp add: numeral_eq_Suc step_at[OF i] entry_def\<close>)
  qed
next
  case AtomicFlag
  show ?thesis
    by (rule exI [of _ "if val c smod n = int i then 6 else 4"])
      (use AtomicFlag e f in \<open>simp add: numeral_eq_Suc step_at[OF i] entry_def\<close>)
next
  case Mutex
  show ?thesis
    by (rule exI [of _ "if val c smod n = int i then 6 else 4"])
      (use Mutex e m in \<open>simp add: numeral_eq_Suc step_at[OF i] entry_def\<close>)
qed

lemma quiet_lock_free:
  assumes "lock_inv v n c" and "v \<noteq> AtomicSpin"
    and "\<forall>j < nat n. midpot (pc (threads c j)) = 0"
  shows "\<not> held v c"
proof -
  have "\<not> in_region c j" if "j < nat n" for j
    using assms(3) that by (auto simp: in_region_def midpot_def)
  then show ?thesis using assms(1,2) by (auto simp: lock_inv_def)
qed

lemma reach_looptest:
  assumes inv: "lock_inv v n c" and i: "int i < n" and nr: "pc (threads c i) \<noteq> Returned"
  shows "\<exists>rest. pc (threads (exec v n mc c rest) i) = LoopTest"
proof -
  obtain d where d: "\<forall>j < nat n. midpot (pc (threads (exec v n mc c d) j)) = 0"
    using drain [of n v mc c] by blast
  define c1 where "c1 = exec v n mc c d"
  have inv1: "lock_inv v n c1" unfolding c1_def using inv by (rule lock_inv_exec)
  have iN: "i < nat n" using i by auto
  have q: "\<forall>j < nat n. midpot (pc (threads c1 j)) = 0" using d by (simp add: c1_def)
  have "own_pc v (pc (threads c1 i))" using inv1 iN by (simp add: lock_inv_def)
  then have "pc (threads c1 i) = entry v \<or> pc (threads c1 i) = Returned"
    using q iN by (intro quiet_pc) auto
  then show ?thesis
  proof
    assume e: "pc (threads c1 i) = entry v"
    have free: "v \<noteq> AtomicSpin \<Longrightarrow> \<not> held v c1"
      using inv1 q by (simp add: quiet_lock_free)
    have "\<exists>k. pc (threads (exec v n mc c1 (replicate k (i, False))) i) = LoopTest"
      using i e
    proof (rule solo_to_looptest)
      show "v = AtomicFlag \<Longrightarrow> \<not> std_spin_lock c1" using free by (simp add: held_def)
      show "v = Mutex \<Longrightarrow> \<not> m_locked c1" using free by (simp add: held_def)
    qed
    then obtain k where "pc (threads (exec v n mc c (d @ replicate k (i, False))) i) = LoopTest"
      by (auto simp: exec_append c1_def)
    then show ?thesis by blast
  next
    assume "pc (threads c1 i) = Returned"
    then show ?thesis using returned_via_looptest [OF i nr] by (simp add: c1_def)
  qed
qed

lemma step_looptest_iff:
  assumes "int i < n" and "own_pc v (pc (threads c i))"
  shows "pc (threads (step v n mc ch c) i) = LoopTest \<longleftrightarrow>
     (fst ch = i \<and> pc (threads c i) = Unlock) \<or> (fst ch \<noteq> i \<and> pc (threads c i) = LoopTest)"
proof (cases "fst ch = i")
  case False
  then show ?thesis by (simp add: step_other)
next
  case True
  have e: "entry v \<noteq> LoopTest" by (cases v) (simp_all add: entry_def)
  show ?thesis
    using step_self_pc_cases [of ch n v mc c] assms True e
    by (cases "pc (threads c i)") (auto split: if_splits)
qed

section \<open>A call under a working lock\<close>

text \<open>
  Under the flag and the mutex no other worker is between lock and unlock while
  worker \<open>i\<close> is: the steps of the others leave the counter and the locals of
  \<open>i\<close> alone, and the steps of \<open>i\<close> take its call to its end.
\<close>

lemma own_steps_simps [simp]:
  "own_steps i [] = 0"
  "own_steps i (ch # sched) = (if fst ch = i then Suc (own_steps i sched) else own_steps i sched)"
  by (simp_all add: own_steps_def)

lemma in_call_other:
  assumes inv: "lock_inv v n c" and v: "v \<noteq> AtomicSpin" and i: "int i < n"
    and r: "in_region c i" and o: "fst ch \<noteq> i"
  shows "val (step v n mc ch c) = val c \<and> threads (step v n mc ch c) i = threads c i"
proof (cases "int (fst ch) < n")
  case False
  then show ?thesis by (simp add: step_not_thread)
next
  case True
  have "i < nat n" "fst ch < nat n" using i True by auto
  then have "\<not> in_region c (fst ch)"
    using inv v r o unfolding lock_inv_def by blast
  then have "pc (threads c (fst ch)) \<noteq> IncStore" by (auto simp: in_region_def)
  then show ?thesis using o by (simp add: step_val step_other)
qed

lemma in_call_own:
  assumes i: "int i < n" and c: "in_call n i V c" and u: "pc (threads c i) \<noteq> Unlock"
  shows "in_call n i V (step v n mc (i, sp) c)
     \<and> Suc (call_left n i V (pc (threads (step v n mc (i, sp) c) i)))
         = call_left n i V (pc (threads c i))"
proof -
  have "pc (threads c i) \<in> {TestTurn, IncLoad, IncStore, CopyRet}"
    using c u by (auto simp: in_call_def in_region_def)
  then consider "pc (threads c i) = TestTurn" | "pc (threads c i) = IncLoad"
    | "pc (threads c i) = IncStore" | "pc (threads c i) = CopyRet" by auto
  then show ?thesis
  proof cases
    case 1
    then show ?thesis using c
      by (cases "val c smod n = int i")
        (simp_all add: step_at [OF i] in_call_def in_region_def call_left_def call_result_def)
  next
    case 2
    then show ?thesis using c
      by (simp add: step_at [OF i] in_call_def in_region_def call_left_def call_result_def)
  next
    case 3
    then show ?thesis using c
      by (simp add: step_at [OF i] in_call_def in_region_def call_left_def call_result_def)
  next
    case 4
    then show ?thesis using c
      by (simp add: step_at [OF i] in_call_def in_region_def call_left_def call_result_def)
  qed
qed

lemma in_call_exec:
  assumes v: "v \<noteq> AtomicSpin" and i: "int i < n"
  shows "lock_inv v n c \<Longrightarrow> in_call n i V c \<Longrightarrow>
     own_steps i r < call_left n i V (pc (threads c i)) \<Longrightarrow>
       in_call n i V (exec v n mc c r)
     \<and> call_left n i V (pc (threads (exec v n mc c r) i))
         = call_left n i V (pc (threads c i)) - own_steps i r"
proof (induction r arbitrary: c)
  case Nil
  then show ?case by simp
next
  case (Cons ch r)
  define c' where "c' = step v n mc ch c"
  have inv': "lock_inv v n c'" unfolding c'_def using Cons.prems(1) by (rule lock_inv_step)
  show ?case
  proof (cases "fst ch = i")
    case True
    then have ch: "ch = (i, snd ch)" by (cases ch) simp
    have "pc (threads c i) \<noteq> Unlock"
      using Cons.prems(3) True by (auto simp: call_left_def)
    from in_call_own [OF i Cons.prems(2) this, of v mc "snd ch"]
    have s: "in_call n i V c'"
      "Suc (call_left n i V (pc (threads c' i))) = call_left n i V (pc (threads c i))"
      unfolding c'_def using ch by simp_all
    have "own_steps i r < call_left n i V (pc (threads c' i))"
      using Cons.prems(3) True s(2) by simp
    from Cons.IH [OF inv' s(1) this] show ?thesis
      using True s(2) by (simp add: c'_def)
  next
    case False
    have r: "in_region c i" using Cons.prems(2) by (simp add: in_call_def)
    from in_call_other [OF Cons.prems(1) v i r False, of mc]
    have same: "val c' = val c" "threads c' i = threads c i" by (simp_all add: c'_def)
    then have s: "in_call n i V c'"
      using Cons.prems(2) by (simp add: in_call_def in_region_def)
    have "own_steps i r < call_left n i V (pc (threads c' i))"
      using Cons.prems(3) False same by simp
    from Cons.IH [OF inv' s this] show ?thesis
      using False same by (simp add: c'_def)
  qed
qed

lemma call_end:
  assumes v: "v \<noteq> AtomicSpin" and i: "int i < n" and c: "in_call n i V c"
    and u: "pc (threads c i) = Unlock"
  shows "pc (threads (step v n mc (i, sp) c) i) = LoopTest
     \<and> ret (threads (step v n mc (i, sp) c) i) = call_result n i V
     \<and> val (step v n mc (i, sp) c) = call_result n i V
     \<and> \<not> held v (step v n mc (i, sp) c)"
  using v c u by (cases v) (simp_all add: step_at [OF i] in_call_def held_def)

lemma call_in_run:
  assumes v: "v \<noteq> AtomicSpin" and i: "int i < n" and inv: "lock_inv v n c"
    and t: "pc (threads c i) = TestTurn"
    and k: "own_steps i r = (if val c smod n = int i then 4 else 2)"
  shows "pc (threads (exec v n mc c (r @ [(i, sp)])) i) = LoopTest
     \<and> ret (threads (exec v n mc c (r @ [(i, sp)])) i) = call_result n i (val c)
     \<and> val (exec v n mc c (r @ [(i, sp)])) = call_result n i (val c)
     \<and> \<not> held v (exec v n mc c (r @ [(i, sp)]))"
proof -
  have c: "in_call n i (val c) c" using t by (simp add: in_call_def in_region_def)
  have l: "own_steps i r < call_left n i (val c) (pc (threads c i))"
    using t k by (simp add: call_left_def)
  from in_call_exec [OF v i inv c l, of mc]
  have a: "in_call n i (val c) (exec v n mc c r)"
    and b: "call_left n i (val c) (pc (threads (exec v n mc c r) i)) = 1"
    using t k by (simp_all add: call_left_def)
  have "in_region (exec v n mc c r) i" using a by (simp add: in_call_def)
  then have u: "pc (threads (exec v n mc c r) i) = Unlock"
    using b by (auto simp: in_region_def call_left_def split: if_splits)
  show ?thesis
    using call_end [OF v i a u, of mc sp] by (simp add: exec_append)
qed

section \<open>Reading the argument\<close>

lemma digit_value_nonneg: "isdigit c \<Longrightarrow> 0 \<le> digit_value c"
  by (auto simp: isdigit_def digit_value_def)

lemma foldl_decimal_nonneg:
  "0 \<le> a \<Longrightarrow> \<forall>c \<in> set ds. isdigit c \<Longrightarrow>
     0 \<le> foldl (\<lambda>a c. 10 * a + digit_value c) a ds"
proof (induction ds arbitrary: a)
  case Nil
  then show ?case by simp
next
  case (Cons c ds)
  have "0 \<le> 10 * a + digit_value c"
    using Cons.prems digit_value_nonneg [of c] by simp
  then show ?case using Cons.IH Cons.prems(2) by simp
qed

lemma decimal_nonneg: "\<forall>c \<in> set ds. isdigit c \<Longrightarrow> 0 \<le> decimal ds"
  by (simp add: decimal_def foldl_decimal_nonneg)

lemma isdigit_not_space: "isdigit c \<Longrightarrow> \<not> isspace c \<and> c \<noteq> CHR ''-'' \<and> c \<noteq> CHR ''+''"
  by (auto simp: isdigit_def isspace_def)

lemma leading_number_digits:
  assumes "s \<noteq> []" and "\<forall>c \<in> set s. isdigit c"
  shows "leading_number s = Some (decimal s)"
proof -
  obtain c r where s: "s = c # r" using assms(1) by (cases s) auto
  have c: "\<not> isspace c" "c \<noteq> CHR ''-''" "c \<noteq> CHR ''+''"
    using assms(2) isdigit_not_space [of c] by (auto simp: s)
  have d: "dropWhile isspace s = s" using c by (simp add: s)
  have t: "takeWhile isdigit s = s" using assms(2) by (simp add: takeWhile_eq_all_conv)
  show ?thesis
    unfolding leading_number_def d Let_def using c t assms(1) by (simp add: s)
qed

lemma leading_number_no_digit:
  assumes "\<forall>c \<in> set s. \<not> isdigit c"
  shows "leading_number s = None"
proof -
  define s1 where "s1 = dropWhile isspace s"
  define s2 where "s2 = (if s1 \<noteq> [] \<and> (hd s1 = CHR ''-'' \<or> hd s1 = CHR ''+'') then tl s1 else s1)"
  have "set s1 \<subseteq> set s" unfolding s1_def by (rule set_dropWhileD [THEN subsetI])
  moreover have "set s2 \<subseteq> set s1" unfolding s2_def by (auto dest: list.set_sel(2))
  ultimately have "\<forall>c \<in> set s2. \<not> isdigit c" using assms by blast
  then have "takeWhile isdigit s2 = []" by (cases s2) auto
  then show ?thesis
    unfolding leading_number_def s1_def [symmetric] Let_def s2_def [symmetric] by simp
qed

lemma leading_digits:
  assumes "\<forall>c \<in> set ds. isdigit c" and "rest = [] \<or> \<not> isdigit (hd rest)"
  shows "takeWhile isdigit (ds @ rest) = ds"
proof -
  have "takeWhile isdigit rest = []" using assms(2) by (cases rest) auto
  then show ?thesis using assms(1) by (simp add: takeWhile_append2)
qed

lemma leading_number_head:
  assumes ws: "\<forall>c \<in> set ws. isspace c" and ne: "ds \<noteq> []" and ds: "\<forall>c \<in> set ds. isdigit c"
    and rest: "rest = [] \<or> \<not> isdigit (hd rest)"
  shows "leading_number (ws @ ds @ rest) = Some (decimal ds)"
    and "leading_number (ws @ CHR ''+'' # ds @ rest) = Some (decimal ds)"
    and "leading_number (ws @ CHR ''-'' # ds @ rest) = Some (- decimal ds)"
proof -
  obtain d r where d: "ds = d # r" using ne by (cases ds) auto
  have dd: "\<not> isspace d" "d \<noteq> CHR ''-''" "d \<noteq> CHR ''+''"
    using ds isdigit_not_space [of d] by (auto simp: d)
  have t: "takeWhile isdigit (ds @ rest) = ds" using ds rest by (rule leading_digits)
  have s: "\<not> isspace CHR ''+''" "\<not> isspace CHR ''-''" by (simp_all add: isspace_def)
  have 1: "dropWhile isspace (ws @ ds @ rest) = ds @ rest"
    using ws dd by (simp add: dropWhile_append2 d)
  have 2: "dropWhile isspace (ws @ CHR ''+'' # ds @ rest) = CHR ''+'' # ds @ rest"
    using ws s by (simp add: dropWhile_append2)
  have 3: "dropWhile isspace (ws @ CHR ''-'' # ds @ rest) = CHR ''-'' # ds @ rest"
    using ws s by (simp add: dropWhile_append2)
  show "leading_number (ws @ ds @ rest) = Some (decimal ds)"
    unfolding leading_number_def 1 Let_def using t ne dd by (simp add: d)
  show "leading_number (ws @ CHR ''+'' # ds @ rest) = Some (decimal ds)"
    unfolding leading_number_def 2 Let_def using t ne by simp
  show "leading_number (ws @ CHR ''-'' # ds @ rest) = Some (- decimal ds)"
    unfolding leading_number_def 3 Let_def using t ne by simp
qed

section \<open>The lock of \<^verbatim>\<open>ResourceAtomicSpin\<close>\<close>

text \<open>
  C1 (the code departs from the claim). The claim: the acquire step enters the
  protected region only after a compare-and-swap has taken the cell from free (0)
  to held (1), and retries after a failed one. The code has the loop test the
  other way round, \<^verbatim>\<open>while (spin_lock.compare_exchange_weak(expect, 1, ...))\<close>: worker
  0 finds the cell held (1), its compare-and-swap fails, and it is at the first
  statement of the protected region with the cell untouched; when it finds the
  cell free (0), its compare-and-swap succeeds and it goes round the loop again
  instead of entering.
\<close>

theorem spin_acquire_enters_on_failed_cas:
  "pc (threads (exec AtomicSpin 2 1000000 ((init AtomicSpin)\<lparr>spin_lock := 1\<rparr>)
                  [(0, False), (0, False)]) 0) = TestTurn
   \<and> spin_lock (exec AtomicSpin 2 1000000 ((init AtomicSpin)\<lparr>spin_lock := 1\<rparr>)
                  [(0, False), (0, False)]) = 1
   \<and> pc (threads (exec AtomicSpin 2 1000000 (init AtomicSpin) [(0, False), (0, False)]) 0)
       = SpinSetExpect
   \<and> spin_lock (exec AtomicSpin 2 1000000 (init AtomicSpin) [(0, False), (0, False)]) = 1"
  by (simp add: step_simps init_def)

text \<open>
  C2 (the code departs from the claim). The claim: at most one worker is between
  lock and unlock of a counter at any instant, in each of the three variants. With
  \<^verbatim>\<open>ResourceAtomicSpin\<close> and two workers: worker 0 takes the cell and goes round its
  loop, worker 1 fails on the held cell and enters, worker 0 fails on its second
  attempt and enters too.
\<close>

theorem spin_two_workers_in_region:
  "in_region (exec AtomicSpin 2 1000000 (init AtomicSpin)
      [(0, False), (0, False), (1, False), (1, False), (0, False), (0, False)]) 0
   \<and> in_region (exec AtomicSpin 2 1000000 (init AtomicSpin)
      [(0, False), (0, False), (1, False), (1, False), (0, False), (0, False)]) 1"
  by (simp add: step_simps init_def in_region_def)

section \<open>One call\<close>

text \<open>
  C3, the counterexample. The claim: a call whose turn it is increments the
  counter by exactly 1. On the counter value \<open>INT_MAX\<close>, with two workers and for
  worker 1, it is the caller's turn and \<^verbatim>\<open>val++\<close> overflows: the counter and the
  returned copy are \<open>INT_MIN\<close>.
\<close>

theorem inc_at_INT_MAX:
  "inc Mutex [] 2 1 \<lparr>val = 2147483647, spin_lock = 0, std_spin_lock = False, m_locked = False\<rparr>
     = Some (Inr (- 2147483648,
          \<lparr>val = - 2147483648, spin_lock = 0, std_spin_lock = False, m_locked = False\<rparr>))
   \<and> (2147483647 :: int) mod 2 = 1"
  by (simp add: inc_def inc_mutex_def mutex_lock_def protected_region_def INT_MIN_def
      wrap32_def signed_modulo_int_def)

text \<open>
  C3, as amended. Let \<open>max_threads > 0\<close>, \<open>0 \<le> thread_num < max_threads\<close> and let the
  counter be an \<^verbatim>\<open>int\<close> \<open>v < INT_MAX\<close>.
  \<^item> A call run alone on a free lock (the flag clear, the mutex unlocked) returns
    in each of the three variants; the counter is then \<open>v + 1\<close> if
    \<^verbatim>\<open>v % max_threads == thread_num\<close> and \<open>v\<close> otherwise, the returned value is the new
    counter, and the lock is free again.
  \<^item> With \<^verbatim>\<open>ResourceAtomicFlag\<close> and \<^verbatim>\<open>ResourceMutex\<close> the same holds of every call in
    every run, whatever the other workers do in the meantime: when worker \<open>i\<close>
    has taken the lock and is about to test its turn with the counter at \<open>v\<close>,
    then after any further steps of the run in which it takes four steps of its
    own if \<^verbatim>\<open>v % max_threads == i\<close> and two otherwise (\<open>during\<close>), its next step
    releases the lock, and the counter is then \<open>v + 1\<close>, respectively \<open>v\<close>, and
    its copy \<open>ret\<close>, the value the call returns, is the counter.
  \<^item> For \<open>v \<ge> 0\<close> the remainder \<^verbatim>\<open>v % max_threads\<close> is \<open>v mod max_threads\<close>.

  Calls of \<^verbatim>\<open>ResourceAtomicSpin\<close> inside a run are left out: its lock does not
  exclude (C1, C2); among the further properties below is a run in which such a
  call stores 1 and returns 2.
\<close>

theorem inc_turn_increment:
  "(0 < n \<and> 0 \<le> t \<and> t < n \<and> INT_MIN \<le> val r \<and> val r < INT_MAX
      \<and> \<not> std_spin_lock r \<and> \<not> m_locked r \<longrightarrow>
      (\<exists>r'. inc v sp n t r = Some (Inr (val r', r'))
         \<and> val r' = (if val r smod n = t then val r + 1 else val r)
         \<and> \<not> std_spin_lock r' \<and> \<not> m_locked r' \<and> (v = AtomicSpin \<longrightarrow> spin_lock r' = 0)))
   \<and> (v \<noteq> AtomicSpin \<and> initial v c0 \<and> int i < n
      \<and> pc (threads (exec v n mc c0 sched) i) = TestTurn
      \<and> val (exec v n mc c0 sched) < INT_MAX
      \<and> own_steps i during = (if val (exec v n mc c0 sched) smod n = int i then 4 else 2) \<longrightarrow>
        val (exec v n mc c0 (sched @ during @ [(i, b)]))
          = (if val (exec v n mc c0 sched) smod n = int i
             then val (exec v n mc c0 sched) + 1 else val (exec v n mc c0 sched))
      \<and> ret (threads (exec v n mc c0 (sched @ during @ [(i, b)])) i)
          = val (exec v n mc c0 (sched @ during @ [(i, b)]))
      \<and> pc (threads (exec v n mc c0 (sched @ during @ [(i, b)])) i) = LoopTest
      \<and> \<not> held v (exec v n mc c0 (sched @ during @ [(i, b)])))
   \<and> (0 < n \<and> 0 \<le> val r \<longrightarrow> val r smod n = val r mod n)"
proof (intro conjI impI)
  assume a: "0 < n \<and> 0 \<le> t \<and> t < n \<and> INT_MIN \<le> val r \<and> val r < INT_MAX
      \<and> \<not> std_spin_lock r \<and> \<not> m_locked r"
  have w: "wrap32 (val r + 1) = val r + 1"
    using a by (intro wrap32_id) (simp_all add: INT_MIN_def INT_MAX_def)
  have nt: "\<not> (n = 0 \<or> val r = INT_MIN \<and> n = - 1)"
    using a by simp
  have pr: "protected_region n t (val r) =
        Inr ((if val r smod n = t then val r + 1 else val r),
             (if val r smod n = t then val r + 1 else val r))"
    using nt w by (simp add: protected_region_def Let_def)
  show "\<exists>r'. inc v sp n t r = Some (Inr (val r', r'))
         \<and> val r' = (if val r smod n = t then val r + 1 else val r)
         \<and> \<not> std_spin_lock r' \<and> \<not> m_locked r' \<and> (v = AtomicSpin \<longrightarrow> spin_lock r' = 0)"
  proof (cases v)
    case AtomicSpin
    then show ?thesis using pr a
      by (simp add: inc_def inc_spin_def)
  next
    case AtomicFlag
    then show ?thesis using pr a
      by (simp add: inc_def inc_flag_def flag_acquire.simps)
  next
    case Mutex
    then show ?thesis using pr a
      by (simp add: inc_def inc_mutex_def mutex_lock_def)
  qed
next
  assume a: "v \<noteq> AtomicSpin \<and> initial v c0 \<and> int i < n
      \<and> pc (threads (exec v n mc c0 sched) i) = TestTurn
      \<and> val (exec v n mc c0 sched) < INT_MAX
      \<and> own_steps i during = (if val (exec v n mc c0 sched) smod n = int i then 4 else 2)"
  define c where "c = exec v n mc c0 sched"
  define c' where "c' = exec v n mc c0 (sched @ during @ [(i, b)])"
  have c'': "c' = exec v n mc c (during @ [(i, b)])"
    by (simp add: c_def c'_def exec_append)
  have inv: "lock_inv v n c"
    unfolding c_def using a by (intro lock_inv_exec lock_inv_initial) simp
  have "initial v c0" using a by simp
  then have "in_range c"
    unfolding c_def by (intro in_range_exec) (rule in_range_initial)
  then have w: "wrap32 (val c + 1) = val c + 1"
    using a by (intro wrap32_id) (simp_all add: in_range_def c_def INT_MIN_def INT_MAX_def)
  have r: "call_result n i (val c) = (if val c smod n = int i then val c + 1 else val c)"
    using w by (simp add: call_result_def)
  have "pc (threads c' i) = LoopTest \<and> ret (threads c' i) = call_result n i (val c)
     \<and> val c' = call_result n i (val c) \<and> \<not> held v c'"
    unfolding c''
    using a by (intro call_in_run inv) (simp_all add: c_def)
  then have g: "val c' = (if val c smod n = int i then val c + 1 else val c)
      \<and> ret (threads c' i) = val c' \<and> pc (threads c' i) = LoopTest \<and> \<not> held v c'"
    using r by simp
  show "val (exec v n mc c0 (sched @ during @ [(i, b)]))
          = (if val (exec v n mc c0 sched) smod n = int i
             then val (exec v n mc c0 sched) + 1 else val (exec v n mc c0 sched))"
    using g by (simp add: c_def c'_def)
  show "ret (threads (exec v n mc c0 (sched @ during @ [(i, b)])) i)
          = val (exec v n mc c0 (sched @ during @ [(i, b)]))"
    using g by (simp add: c_def c'_def)
  show "pc (threads (exec v n mc c0 (sched @ during @ [(i, b)])) i) = LoopTest"
    using g by (simp add: c_def c'_def)
  show "\<not> held v (exec v n mc c0 (sched @ during @ [(i, b)]))"
    using g by (simp add: c_def c'_def)
next
  assume "0 < n \<and> 0 \<le> val r"
  then show "val r smod n = val r mod n" by (simp add: smod_nonneg)
qed

theorem inc_turn_increment_witness:
  "(\<exists>r'. inc AtomicFlag [] 4 3 \<lparr>val = 7, spin_lock = 0, std_spin_lock = False, m_locked = False\<rparr>
          = Some (Inr (val r', r')) \<and> val r' = 8)
   \<and> (\<exists>r'. inc AtomicSpin [] 4 2 \<lparr>val = 7, spin_lock = 0, std_spin_lock = False, m_locked = False\<rparr>
          = Some (Inr (val r', r')) \<and> val r' = 7)
   \<and> val (exec Mutex 2 5 (init Mutex)
        ([(0, False)] @ [(1, False), (0, False), (1, False), (0, False), (0, False), (1, False), (0, False)]
           @ [(0, False)])) = 1
   \<and> ret (threads (exec Mutex 2 5 (init Mutex)
        ([(0, False)] @ [(1, False), (0, False), (1, False), (0, False), (0, False), (1, False), (0, False)]
           @ [(0, False)])) 0) = 1
   \<and> val (exec AtomicFlag 2 5 (init AtomicFlag)
        ([(1, False)] @ [(0, False), (1, False), (0, False), (1, False)] @ [(1, False)])) = 0
   \<and> ret (threads (exec AtomicFlag 2 5 (init AtomicFlag)
        ([(1, False)] @ [(0, False), (1, False), (0, False), (1, False)] @ [(1, False)])) 1) = 0
   \<and> \<not> held AtomicFlag (exec AtomicFlag 2 5 (init AtomicFlag)
        ([(1, False)] @ [(0, False), (1, False), (0, False), (1, False)] @ [(1, False)]))
   \<and> (7::int) smod 4 = 7 mod 4"
proof -
  have a: "pc (threads (exec Mutex 2 5 (init Mutex) [(0, False)]) 0) = TestTurn"
    "val (exec Mutex 2 5 (init Mutex) [(0, False)]) = 0"
    "pc (threads (exec AtomicFlag 2 5 (init AtomicFlag) [(1, False)]) 1) = TestTurn"
    "val (exec AtomicFlag 2 5 (init AtomicFlag) [(1, False)]) = 0"
    by (simp_all add: step_simps init_def)
  have b: "own_steps 0 [(1, False), (0, False), (1, False), (0, False), (0, False), (1, False), (0, False)] = 4"
    "own_steps 1 [(0, False), (1, False), (0, False), (1, False)] = 2"
    by (simp_all add: own_steps_def)
  have m: "(0::int) smod 2 = 0" by (simp add: signed_modulo_int_def)
  have s1: "\<exists>r'. inc AtomicFlag [] 4 3 \<lparr>val = 7, spin_lock = 0, std_spin_lock = False, m_locked = False\<rparr>
          = Some (Inr (val r', r')) \<and> val r' = 8"
    using inc_turn_increment [THEN conjunct1, of 4 3
        "\<lparr>val = 7, spin_lock = 0, std_spin_lock = False, m_locked = False\<rparr>" AtomicFlag "[]"]
    by (auto simp: INT_MAX_def INT_MIN_def signed_modulo_int_def)
  have s2: "\<exists>r'. inc AtomicSpin [] 4 2 \<lparr>val = 7, spin_lock = 0, std_spin_lock = False, m_locked = False\<rparr>
          = Some (Inr (val r', r')) \<and> val r' = 7"
    using inc_turn_increment [THEN conjunct1, of 4 2
        "\<lparr>val = 7, spin_lock = 0, std_spin_lock = False, m_locked = False\<rparr>" AtomicSpin "[]"]
    by (auto simp: INT_MAX_def INT_MIN_def signed_modulo_int_def)
  have r1: "val (exec Mutex 2 5 (init Mutex)
        ([(0, False)] @ [(1, False), (0, False), (1, False), (0, False), (0, False), (1, False), (0, False)]
           @ [(0, False)])) = 1
   \<and> ret (threads (exec Mutex 2 5 (init Mutex)
        ([(0, False)] @ [(1, False), (0, False), (1, False), (0, False), (0, False), (1, False), (0, False)]
           @ [(0, False)])) 0) = 1"
    using inc_turn_increment [THEN conjunct2, THEN conjunct1, of Mutex "init Mutex" 0 2 5 "[(0, False)]"
        "[(1, False), (0, False), (1, False), (0, False), (0, False), (1, False), (0, False)]" False]
      initial_init [of Mutex] a(1,2) b(1) m
    by (simp add: INT_MAX_def)
  have r2: "val (exec AtomicFlag 2 5 (init AtomicFlag)
        ([(1, False)] @ [(0, False), (1, False), (0, False), (1, False)] @ [(1, False)])) = 0
   \<and> ret (threads (exec AtomicFlag 2 5 (init AtomicFlag)
        ([(1, False)] @ [(0, False), (1, False), (0, False), (1, False)] @ [(1, False)])) 1) = 0
   \<and> \<not> held AtomicFlag (exec AtomicFlag 2 5 (init AtomicFlag)
        ([(1, False)] @ [(0, False), (1, False), (0, False), (1, False)] @ [(1, False)]))"
    using inc_turn_increment [THEN conjunct2, THEN conjunct1, of AtomicFlag "init AtomicFlag" 1 2 5
        "[(1, False)]" "[(0, False), (1, False), (0, False), (1, False)]" False]
      initial_init [of AtomicFlag] a(3,4) b(2) m
    by (simp add: INT_MAX_def)
  have r3: "(7::int) smod 4 = 7 mod 4"
    using inc_turn_increment [THEN conjunct2, THEN conjunct2, of 4
        "\<lparr>val = 7, spin_lock = 0, std_spin_lock = False, m_locked = False\<rparr>"]
    by simp
  show ?thesis using s1 s2 r1 r2 r3 by blast
qed

section \<open>The loop of the worker\<close>

text \<open>
  C7. A worker compares the value its call returned with the target at each turn
  of its loop and leaves the loop the first time the value is at least the
  target. In every run of each of the three variants, for every worker \<open>i\<close>:
  \<^item> a step leaves it returned exactly when it had returned already or the step
    is its loop test on a copy \<open>ret \<ge> max_count\<close>;
  \<^item> its loop test on a copy \<open>ret < max_count\<close> takes it to the next call of \<^verbatim>\<open>inc\<close>;
  \<^item> once it has returned, the copy it holds is \<open>\<ge> max_count\<close> and nothing that
    follows in the run changes its state;
  \<^item> a step leaves it at its loop test exactly when the step is its own and ends
    a call of \<^verbatim>\<open>inc\<close> (the unlock), or it was there and the step is another
    worker's; the step that ends the call leaves the copy \<open>ret\<close> as the call made it;
  \<^item> and as long as it has not returned, the run can be continued so that it
    comes to its loop test: no worker of any variant stays away from the test.
\<close>

theorem worker_loop_exit:
  assumes "initial v c0" and "int i < n"
  shows "(pc (threads (exec v n mc c0 (sched @ [ch])) i) = Returned \<longleftrightarrow>
            pc (threads (exec v n mc c0 sched) i) = Returned
            \<or> (fst ch = i \<and> pc (threads (exec v n mc c0 sched) i) = LoopTest
                \<and> mc \<le> ret (threads (exec v n mc c0 sched) i)))
     \<and> (pc (threads (exec v n mc c0 sched) i) = LoopTest
          \<and> ret (threads (exec v n mc c0 sched) i) < mc \<longrightarrow>
            pc (threads (exec v n mc c0 (sched @ [(i, sp)])) i) = entry v)
     \<and> (pc (threads (exec v n mc c0 sched) i) = Returned \<longrightarrow>
            mc \<le> ret (threads (exec v n mc c0 sched) i)
            \<and> threads (exec v n mc c0 (sched @ rest)) i = threads (exec v n mc c0 sched) i)
     \<and> (pc (threads (exec v n mc c0 (sched @ [ch])) i) = LoopTest \<longleftrightarrow>
            (fst ch = i \<and> pc (threads (exec v n mc c0 sched) i) = Unlock)
            \<or> (fst ch \<noteq> i \<and> pc (threads (exec v n mc c0 sched) i) = LoopTest))
     \<and> (pc (threads (exec v n mc c0 sched) i) = Unlock \<longrightarrow>
            ret (threads (exec v n mc c0 (sched @ [(i, sp)])) i)
              = ret (threads (exec v n mc c0 sched) i))
     \<and> (pc (threads (exec v n mc c0 sched) i) \<noteq> Returned \<longrightarrow>
            (\<exists>more. pc (threads (exec v n mc c0 (sched @ more)) i) = LoopTest))"
proof -
  define c where "c = exec v n mc c0 sched"
  have inv: "lock_inv v n c"
    unfolding c_def using assms(1) by (intro lock_inv_exec lock_inv_initial)
  have own: "own_pc v (pc (threads c i))"
    using inv assms(2) by (simp add: lock_inv_def)
  have 1: "pc (threads (exec v n mc c0 (sched @ [ch])) i) = Returned \<longleftrightarrow>
            pc (threads c i) = Returned
            \<or> (fst ch = i \<and> pc (threads c i) = LoopTest \<and> mc \<le> ret (threads c i))"
    using assms(2) by (simp add: exec_append step_returned_iff c_def)
  have 2: "pc (threads (exec v n mc c0 (sched @ [(i, sp)])) i) = entry v"
    if "pc (threads c i) = LoopTest \<and> ret (threads c i) < mc"
    using that assms(2) by (simp add: exec_append step_at c_def)
  have "exit_inv mc c"
    unfolding c_def using assms(1) by (intro exit_inv_exec exit_inv_initial)
  then have 3: "mc \<le> ret (threads c i)
      \<and> threads (exec v n mc c0 (sched @ rest)) i = threads c i"
    if "pc (threads c i) = Returned"
    using that by (simp add: exit_inv_def exec_append returned_stays c_def)
  have 4: "pc (threads (exec v n mc c0 (sched @ [ch])) i) = LoopTest \<longleftrightarrow>
            (fst ch = i \<and> pc (threads c i) = Unlock) \<or> (fst ch \<noteq> i \<and> pc (threads c i) = LoopTest)"
    using step_looptest_iff [OF assms(2) own] by (simp add: exec_append c_def)
  have 5: "ret (threads (exec v n mc c0 (sched @ [(i, sp)])) i) = ret (threads c i)"
    if "pc (threads c i) = Unlock"
    using that assms(2) by (simp add: exec_append step_at c_def)
  have 6: "\<exists>more. pc (threads (exec v n mc c0 (sched @ more)) i) = LoopTest"
    if "pc (threads c i) \<noteq> Returned"
    using reach_looptest [OF inv assms(2) that] by (simp add: exec_append c_def)
  show ?thesis
    unfolding c_def [symmetric] using 1 2 3 4 5 6 by blast
qed


theorem worker_loop_exit_witness:
  "pc (threads (exec AtomicSpin 2 1 (init AtomicSpin) (replicate 9 (0, False) @ [(0, False)])) 0) = Returned
   \<and> pc (threads (exec AtomicSpin 2 1 (init AtomicSpin) (replicate 7 (1, False) @ [(1, False)])) 1) = SpinSetExpect
   \<and> 1 \<le> ret (threads (exec AtomicSpin 2 1 (init AtomicSpin) (replicate 10 (0, False))) 0)
   \<and> threads (exec AtomicSpin 2 1 (init AtomicSpin) (replicate 10 (0, False) @ replicate 3 (1, False))) 0
       = threads (exec AtomicSpin 2 1 (init AtomicSpin) (replicate 10 (0, False))) 0
   \<and> pc (threads (exec AtomicSpin 2 1 (init AtomicSpin) (replicate 8 (0, False) @ [(0, False)])) 0) = LoopTest
   \<and> ret (threads (exec AtomicSpin 2 1 (init AtomicSpin) (replicate 8 (0, False) @ [(0, False)])) 0) = 1
   \<and> (\<exists>more. pc (threads (exec AtomicSpin 2 1 (init AtomicSpin) ([] @ more)) 1) = LoopTest)
   \<and> pc (threads (exec AtomicFlag 2 1 (init AtomicFlag) (replicate 6 (0, False) @ [(0, False)])) 0) = Returned
   \<and> pc (threads (exec AtomicFlag 2 1 (init AtomicFlag) (replicate 4 (1, False) @ [(1, False)])) 1) = FlagTAS
   \<and> 1 \<le> ret (threads (exec AtomicFlag 2 1 (init AtomicFlag) (replicate 7 (0, False))) 0)
   \<and> threads (exec AtomicFlag 2 1 (init AtomicFlag) (replicate 7 (0, False) @ replicate 3 (1, False))) 0
       = threads (exec AtomicFlag 2 1 (init AtomicFlag) (replicate 7 (0, False))) 0
   \<and> pc (threads (exec AtomicFlag 2 1 (init AtomicFlag) (replicate 5 (0, False) @ [(0, False)])) 0) = LoopTest
   \<and> ret (threads (exec AtomicFlag 2 1 (init AtomicFlag) (replicate 5 (0, False) @ [(0, False)])) 0) = 1
   \<and> (\<exists>more. pc (threads (exec AtomicFlag 2 1 (init AtomicFlag) ([] @ more)) 1) = LoopTest)
   \<and> pc (threads (exec Mutex 2 1 (init Mutex) (replicate 6 (0, False) @ [(0, False)])) 0) = Returned
   \<and> pc (threads (exec Mutex 2 1 (init Mutex) (replicate 4 (1, False) @ [(1, False)])) 1) = MutexLock
   \<and> 1 \<le> ret (threads (exec Mutex 2 1 (init Mutex) (replicate 7 (0, False))) 0)
   \<and> threads (exec Mutex 2 1 (init Mutex) (replicate 7 (0, False) @ replicate 3 (1, False))) 0
       = threads (exec Mutex 2 1 (init Mutex) (replicate 7 (0, False))) 0
   \<and> pc (threads (exec Mutex 2 1 (init Mutex) (replicate 5 (0, False) @ [(0, False)])) 0) = LoopTest
   \<and> ret (threads (exec Mutex 2 1 (init Mutex) (replicate 5 (0, False) @ [(0, False)])) 0) = 1
   \<and> (\<exists>more. pc (threads (exec Mutex 2 1 (init Mutex) ([] @ more)) 1) = LoopTest)"
proof -
  have an: "pc (threads (exec AtomicSpin 2 1 (init AtomicSpin) (replicate 9 (0, False))) 0) = LoopTest
      \<and> ret (threads (exec AtomicSpin 2 1 (init AtomicSpin) (replicate 9 (0, False))) 0) = 1
      \<and> pc (threads (exec AtomicSpin 2 1 (init AtomicSpin) (replicate 7 (1, False))) 1) = LoopTest
      \<and> ret (threads (exec AtomicSpin 2 1 (init AtomicSpin) (replicate 7 (1, False))) 1) = 0
      \<and> pc (threads (exec AtomicSpin 2 1 (init AtomicSpin) (replicate 10 (0, False))) 0) = Returned
      \<and> pc (threads (exec AtomicSpin 2 1 (init AtomicSpin) (replicate 8 (0, False))) 0) = Unlock
      \<and> ret (threads (exec AtomicSpin 2 1 (init AtomicSpin) (replicate 8 (0, False))) 0) = 1
      \<and> pc (threads (exec AtomicSpin 2 1 (init AtomicSpin) []) 1) \<noteq> Returned"
    by (simp add: numeral_eq_Suc step_simps init_def wrap32_def signed_modulo_int_def)
  have ag: "pc (threads (exec AtomicFlag 2 1 (init AtomicFlag) (replicate 6 (0, False))) 0) = LoopTest
      \<and> ret (threads (exec AtomicFlag 2 1 (init AtomicFlag) (replicate 6 (0, False))) 0) = 1
      \<and> pc (threads (exec AtomicFlag 2 1 (init AtomicFlag) (replicate 4 (1, False))) 1) = LoopTest
      \<and> ret (threads (exec AtomicFlag 2 1 (init AtomicFlag) (replicate 4 (1, False))) 1) = 0
      \<and> pc (threads (exec AtomicFlag 2 1 (init AtomicFlag) (replicate 7 (0, False))) 0) = Returned
      \<and> pc (threads (exec AtomicFlag 2 1 (init AtomicFlag) (replicate 5 (0, False))) 0) = Unlock
      \<and> ret (threads (exec AtomicFlag 2 1 (init AtomicFlag) (replicate 5 (0, False))) 0) = 1
      \<and> pc (threads (exec AtomicFlag 2 1 (init AtomicFlag) []) 1) \<noteq> Returned"
    by (simp add: numeral_eq_Suc step_simps init_def wrap32_def signed_modulo_int_def)
  have mx: "pc (threads (exec Mutex 2 1 (init Mutex) (replicate 6 (0, False))) 0) = LoopTest
      \<and> ret (threads (exec Mutex 2 1 (init Mutex) (replicate 6 (0, False))) 0) = 1
      \<and> pc (threads (exec Mutex 2 1 (init Mutex) (replicate 4 (1, False))) 1) = LoopTest
      \<and> ret (threads (exec Mutex 2 1 (init Mutex) (replicate 4 (1, False))) 1) = 0
      \<and> pc (threads (exec Mutex 2 1 (init Mutex) (replicate 7 (0, False))) 0) = Returned
      \<and> pc (threads (exec Mutex 2 1 (init Mutex) (replicate 5 (0, False))) 0) = Unlock
      \<and> ret (threads (exec Mutex 2 1 (init Mutex) (replicate 5 (0, False))) 0) = 1
      \<and> pc (threads (exec Mutex 2 1 (init Mutex) []) 1) \<noteq> Returned"
    by (simp add: numeral_eq_Suc step_simps init_def wrap32_def signed_modulo_int_def)
  have anw: "pc (threads (exec AtomicSpin 2 1 (init AtomicSpin) (replicate 9 (0, False) @ [(0, False)])) 0) = Returned
   \<and> pc (threads (exec AtomicSpin 2 1 (init AtomicSpin) (replicate 7 (1, False) @ [(1, False)])) 1) = SpinSetExpect
   \<and> 1 \<le> ret (threads (exec AtomicSpin 2 1 (init AtomicSpin) (replicate 10 (0, False))) 0)
   \<and> threads (exec AtomicSpin 2 1 (init AtomicSpin) (replicate 10 (0, False) @ replicate 3 (1, False))) 0
       = threads (exec AtomicSpin 2 1 (init AtomicSpin) (replicate 10 (0, False))) 0
   \<and> pc (threads (exec AtomicSpin 2 1 (init AtomicSpin) (replicate 8 (0, False) @ [(0, False)])) 0) = LoopTest
   \<and> ret (threads (exec AtomicSpin 2 1 (init AtomicSpin) (replicate 8 (0, False) @ [(0, False)])) 0) = 1
   \<and> (\<exists>more. pc (threads (exec AtomicSpin 2 1 (init AtomicSpin) ([] @ more)) 1) = LoopTest)"
    using an
      worker_loop_exit [OF initial_init, of 0 2 AtomicSpin 1 "replicate 9 (0, False)" "(0, False)" False "[]"]
      worker_loop_exit [OF initial_init, of 1 2 AtomicSpin 1 "replicate 7 (1, False)" "(1, False)" False "[]"]
      worker_loop_exit [OF initial_init, of 0 2 AtomicSpin 1 "replicate 10 (0, False)" "(0, False)" False
        "replicate 3 (1, False)"]
      worker_loop_exit [OF initial_init, of 0 2 AtomicSpin 1 "replicate 8 (0, False)" "(0, False)" False "[]"]
      worker_loop_exit [OF initial_init, of 1 2 AtomicSpin 1 "[]" "(0, False)" False "[]"]
    by (simp add: entry_def)
  have agw: "pc (threads (exec AtomicFlag 2 1 (init AtomicFlag) (replicate 6 (0, False) @ [(0, False)])) 0) = Returned
   \<and> pc (threads (exec AtomicFlag 2 1 (init AtomicFlag) (replicate 4 (1, False) @ [(1, False)])) 1) = FlagTAS
   \<and> 1 \<le> ret (threads (exec AtomicFlag 2 1 (init AtomicFlag) (replicate 7 (0, False))) 0)
   \<and> threads (exec AtomicFlag 2 1 (init AtomicFlag) (replicate 7 (0, False) @ replicate 3 (1, False))) 0
       = threads (exec AtomicFlag 2 1 (init AtomicFlag) (replicate 7 (0, False))) 0
   \<and> pc (threads (exec AtomicFlag 2 1 (init AtomicFlag) (replicate 5 (0, False) @ [(0, False)])) 0) = LoopTest
   \<and> ret (threads (exec AtomicFlag 2 1 (init AtomicFlag) (replicate 5 (0, False) @ [(0, False)])) 0) = 1
   \<and> (\<exists>more. pc (threads (exec AtomicFlag 2 1 (init AtomicFlag) ([] @ more)) 1) = LoopTest)"
    using ag
      worker_loop_exit [OF initial_init, of 0 2 AtomicFlag 1 "replicate 6 (0, False)" "(0, False)" False "[]"]
      worker_loop_exit [OF initial_init, of 1 2 AtomicFlag 1 "replicate 4 (1, False)" "(1, False)" False "[]"]
      worker_loop_exit [OF initial_init, of 0 2 AtomicFlag 1 "replicate 7 (0, False)" "(0, False)" False
        "replicate 3 (1, False)"]
      worker_loop_exit [OF initial_init, of 0 2 AtomicFlag 1 "replicate 5 (0, False)" "(0, False)" False "[]"]
      worker_loop_exit [OF initial_init, of 1 2 AtomicFlag 1 "[]" "(0, False)" False "[]"]
    by (simp add: entry_def)
  have mxw: "pc (threads (exec Mutex 2 1 (init Mutex) (replicate 6 (0, False) @ [(0, False)])) 0) = Returned
   \<and> pc (threads (exec Mutex 2 1 (init Mutex) (replicate 4 (1, False) @ [(1, False)])) 1) = MutexLock
   \<and> 1 \<le> ret (threads (exec Mutex 2 1 (init Mutex) (replicate 7 (0, False))) 0)
   \<and> threads (exec Mutex 2 1 (init Mutex) (replicate 7 (0, False) @ replicate 3 (1, False))) 0
       = threads (exec Mutex 2 1 (init Mutex) (replicate 7 (0, False))) 0
   \<and> pc (threads (exec Mutex 2 1 (init Mutex) (replicate 5 (0, False) @ [(0, False)])) 0) = LoopTest
   \<and> ret (threads (exec Mutex 2 1 (init Mutex) (replicate 5 (0, False) @ [(0, False)])) 0) = 1
   \<and> (\<exists>more. pc (threads (exec Mutex 2 1 (init Mutex) ([] @ more)) 1) = LoopTest)"
    using mx
      worker_loop_exit [OF initial_init, of 0 2 Mutex 1 "replicate 6 (0, False)" "(0, False)" False "[]"]
      worker_loop_exit [OF initial_init, of 1 2 Mutex 1 "replicate 4 (1, False)" "(1, False)" False "[]"]
      worker_loop_exit [OF initial_init, of 0 2 Mutex 1 "replicate 7 (0, False)" "(0, False)" False
        "replicate 3 (1, False)"]
      worker_loop_exit [OF initial_init, of 0 2 Mutex 1 "replicate 5 (0, False)" "(0, False)" False "[]"]
      worker_loop_exit [OF initial_init, of 1 2 Mutex 1 "[]" "(0, False)" False "[]"]
    by (simp add: entry_def)
  show ?thesis using anw agw mxw by simp
qed

section \<open>The target count argument\<close>

text \<open>
  C9, the counterexample. The claim: an argument that is not numeric gets the
  default, a valid numeric argument that is not negative is used as given.
  \<^verbatim>\<open>std::stoi\<close> reads the number at the head of the argument and ignores the rest:
  the argument \<^verbatim>\<open>12abc\<close> is not a number and gives the target count 12, not the
  default. And the valid, non-negative number 2147483648 is no \<^verbatim>\<open>int\<close>:
  \<^verbatim>\<open>std::stoi\<close> throws and the target count is the default, not the number given.
\<close>

theorem stoi_reads_leading_number:
  "main_max_count std_stoi [''lstest'', ''12abc''] = 12
   \<and> main_max_count std_stoi [''lstest'', ''2147483648''] = 1000000"
  by (simp add: main_max_count_def max_count_dflt_def std_stoi_def leading_number_def isspace_def
      isdigit_def decimal_def digit_value_def INT_MIN_def INT_MAX_def)

text \<open>
  C9, as amended. The target count is decided by the number \<^verbatim>\<open>std::stoi\<close> reads
  at the head of the argument (after white space and a sign, the longest run of
  decimal digits; the rest of the argument is ignored): it is the default
  1000000 when there is no such number, or the number is negative or above
  \<open>INT_MAX\<close>, and the number read otherwise. No path ends in an error: the target
  count is in \<open>0 .. INT_MAX\<close> in every case. In terms of the argument string:
  \<^item> an argument without any digit gets the default;
  \<^item> an argument made of digits only whose value is at most \<open>INT_MAX\<close> is used as
    given;
  \<^item> an argument made of white space \<open>ws\<close>, digits \<open>ds\<close> (at least one, with or
    without a \<^verbatim>\<open>+\<close> before them) and a rest that does not begin with a digit gives the
    value of \<open>ds\<close> if that is at most \<open>INT_MAX\<close> and the default otherwise;
  \<^item> the same with a \<^verbatim>\<open>-\<close> before the digits gives 0 if the value of \<open>ds\<close> is 0
    and the default otherwise.
\<close>

theorem main_max_count_stoi:
  assumes "1 < length argv"
  shows "main_max_count std_stoi argv =
           (case leading_number (argv ! 1) of
              None \<Rightarrow> 1000000
            | Some x \<Rightarrow> if x < 0 \<or> INT_MAX < x then 1000000 else x)
     \<and> 0 \<le> main_max_count std_stoi argv \<and> main_max_count std_stoi argv \<le> INT_MAX
     \<and> ((\<forall>c \<in> set (argv ! 1). \<not> isdigit c) \<longrightarrow> main_max_count std_stoi argv = 1000000)
     \<and> (argv ! 1 \<noteq> [] \<and> (\<forall>c \<in> set (argv ! 1). isdigit c) \<and> decimal (argv ! 1) \<le> INT_MAX
          \<longrightarrow> main_max_count std_stoi argv = decimal (argv ! 1))
     \<and> ((\<forall>c \<in> set ws. isspace c) \<and> ds \<noteq> [] \<and> (\<forall>c \<in> set ds. isdigit c)
          \<and> (rest = [] \<or> \<not> isdigit (hd rest)) \<longrightarrow>
          (argv ! 1 = ws @ ds @ rest \<or> argv ! 1 = ws @ CHR ''+'' # ds @ rest \<longrightarrow>
             main_max_count std_stoi argv = (if decimal ds \<le> INT_MAX then decimal ds else 1000000))
        \<and> (argv ! 1 = ws @ CHR ''-'' # ds @ rest \<longrightarrow>
             main_max_count std_stoi argv = (if decimal ds = 0 then 0 else 1000000)))"
proof -
  have g: "main_max_count std_stoi argv =
           (case leading_number (argv ! 1) of
              None \<Rightarrow> 1000000
            | Some x \<Rightarrow> if x < 0 \<or> INT_MAX < x then 1000000 else x)"
    using assms
    by (auto simp: main_max_count_def max_count_dflt_def std_stoi_def INT_MIN_def INT_MAX_def
        split: option.splits)
  have r: "0 \<le> main_max_count std_stoi argv \<and> main_max_count std_stoi argv \<le> INT_MAX"
    unfolding g by (auto simp: INT_MAX_def split: option.splits)
  have n: "main_max_count std_stoi argv = 1000000" if "\<forall>c \<in> set (argv ! 1). \<not> isdigit c"
    unfolding g using leading_number_no_digit [OF that] by simp
  have d: "main_max_count std_stoi argv = decimal (argv ! 1)"
    if "argv ! 1 \<noteq> [] \<and> (\<forall>c \<in> set (argv ! 1). isdigit c) \<and> decimal (argv ! 1) \<le> INT_MAX"
    unfolding g using leading_number_digits [of "argv ! 1"] that decimal_nonneg [of "argv ! 1"]
    by simp
  have h: "(argv ! 1 = ws @ ds @ rest \<or> argv ! 1 = ws @ CHR ''+'' # ds @ rest \<longrightarrow>
             main_max_count std_stoi argv = (if decimal ds \<le> INT_MAX then decimal ds else 1000000))
        \<and> (argv ! 1 = ws @ CHR ''-'' # ds @ rest \<longrightarrow>
             main_max_count std_stoi argv = (if decimal ds = 0 then 0 else 1000000))"
    if a: "(\<forall>c \<in> set ws. isspace c) \<and> ds \<noteq> [] \<and> (\<forall>c \<in> set ds. isdigit c)
          \<and> (rest = [] \<or> \<not> isdigit (hd rest))"
  proof -
    have p: "0 \<le> decimal ds" using a by (simp add: decimal_nonneg)
    have l: "leading_number (ws @ ds @ rest) = Some (decimal ds)"
      "leading_number (ws @ CHR ''+'' # ds @ rest) = Some (decimal ds)"
      "leading_number (ws @ CHR ''-'' # ds @ rest) = Some (- decimal ds)"
      using a by (simp_all add: leading_number_head)
    show ?thesis unfolding g using l p by (auto simp: INT_MAX_def)
  qed
  show ?thesis using g r n d h by blast
qed

theorem main_max_count_stoi_witness:
  "main_max_count std_stoi [''lstest'', ''abc''] = 1000000
   \<and> main_max_count std_stoi [''lstest'', ''-5''] = 1000000
   \<and> main_max_count std_stoi [''lstest'', ''42''] = 42
   \<and> main_max_count std_stoi [''lstest'', '' +12abc''] = 12
   \<and> main_max_count std_stoi [''lstest'', ''4294967297''] = 1000000
   \<and> decimal ''42'' = 42
   \<and> leading_number ''-5'' = Some (- 5)
   \<and> leading_number ''abc'' = None"
proof -
  have a: "leading_number ''abc'' = None" "leading_number ''-5'' = Some (- 5)"
    "decimal ''42'' = 42" "decimal ''12'' = 12" "decimal ''5'' = 5"
    "decimal ''4294967297'' = 4294967297"
    "isdigit CHR ''4''" "isdigit CHR ''2''" "isdigit CHR ''1''" "isdigit CHR ''5''"
    "isdigit CHR ''9''" "isdigit CHR ''6''" "isdigit CHR ''7''"
    "\<not> isdigit CHR ''a''" "\<not> isdigit CHR ''b''" "\<not> isdigit CHR ''c''" "isspace CHR '' ''"
    by (simp_all add: leading_number_def isspace_def isdigit_def decimal_def digit_value_def)
  show ?thesis
    using a main_max_count_stoi [of "[''lstest'', ''abc'']" "[]" "''0''" "[]"]
      main_max_count_stoi [of "[''lstest'', ''-5'']" "[]" "''5''" "[]"]
      main_max_count_stoi [of "[''lstest'', ''42'']" "[]" "''42''" "[]"]
      main_max_count_stoi [of "[''lstest'', '' +12abc'']" "'' ''" "''12''" "''abc''"]
      main_max_count_stoi [of "[''lstest'', ''4294967297'']" "[]" "''4294967297''" "[]"]
    by (simp add: INT_MAX_def)
qed

section \<open>The bound on the counter\<close>

text \<open>
  C10. For \<open>max_threads > 0\<close> and \<open>max_count \<ge> 0\<close> the counter never exceeds
  \<open>max_count + max_threads\<close>, in any configuration of any run of any variant, and
  so at the end of the run. (Without overflow the counter is above \<open>max_count - 1\<close>
  by at most the number of workers committed to return, \<open>val_inv\<close>: a worker that
  stores a value \<open>\<ge> max_count\<close> is committed from then on. Otherwise
  \<open>max_count + max_threads\<close> is beyond every \<^verbatim>\<open>int\<close>.)
\<close>

theorem final_value_bound:
  assumes "initial v c0" and "0 < n" and "0 \<le> mc"
  shows "val (exec v n mc c0 sched) \<le> mc + n"
proof (cases "mc + n \<le> INT_MAX")
  case True
  have "val_inv n mc (exec v n mc c0 sched)"
    using assms True by (intro val_inv_exec val_inv_initial)
  then have "val (exec v n mc c0 sched)
      \<le> max (mc - 1) 0 + int (card {i. i < nat n \<and> committed mc (exec v n mc c0 sched) i})"
    by (simp add: val_inv_def)
  moreover have "card {i. i < nat n \<and> committed mc (exec v n mc c0 sched) i} \<le> nat n"
    by (rule card_less_le)
  ultimately show ?thesis using assms(2,3) by simp
next
  case False
  have "in_range (exec v n mc c0 sched)"
    using assms(1) by (intro in_range_exec in_range_initial)
  then show ?thesis using False by (simp add: in_range_def)
qed

theorem final_value_bound_witness:
  "val (exec Mutex 2 0 (init Mutex) (replicate 7 (0, False) @ replicate 7 (1, False))) \<le> 0 + 2
   \<and> val (exec Mutex 2 0 (init Mutex) (replicate 7 (0, False) @ replicate 7 (1, False))) = 2
   \<and> all_returned 2 (exec Mutex 2 0 (init Mutex) (replicate 7 (0, False) @ replicate 7 (1, False)))"
proof -
  have i: "initial Mutex (init Mutex)"
    by (simp add: initial_def init_def)
  have "val (exec Mutex 2 0 (init Mutex) (replicate 7 (0, False) @ replicate 7 (1, False))) \<le> 0 + 2"
    using i by (rule final_value_bound) simp_all
  moreover have "val (exec Mutex 2 0 (init Mutex) (replicate 7 (0, False) @ replicate 7 (1, False))) = 2
   \<and> all_returned 2 (exec Mutex 2 0 (init Mutex) (replicate 7 (0, False) @ replicate 7 (1, False)))"
    by (simp add: numeral_eq_Suc step_simps init_def all_returned_def wrap32_def
        signed_modulo_int_def less_Suc_eq)
  ultimately show ?thesis by simp
qed

section \<open>The counter over a run\<close>

text \<open>
  C8, the counterexample. The claim: the counter never goes down in a run. With
  two workers and the target \<open>INT_MAX\<close>, after 1073741823 rounds of one call each
  the counter is \<open>INT_MAX - 1\<close>; worker 0 makes it \<open>INT_MAX\<close> and returns; it is then
  the turn of worker 1, whose \<^verbatim>\<open>val++\<close> overflows: the counter sampled after the
  call of worker 0 is \<open>INT_MAX\<close>, and sampled after the call of worker 1 it is
  \<open>INT_MIN\<close>.
\<close>

theorem counter_wraps_at_INT_MAX:
  "val (exec Mutex 2 INT_MAX (init Mutex) (alternate 1073741823 @ replicate 7 (0, False)))
     = INT_MAX
   \<and> val (exec Mutex 2 INT_MAX (init Mutex)
          (alternate 1073741823 @ replicate 7 (0, False) @ replicate 7 (1, False)))
     = INT_MIN"
  using wrap_run by blast

text \<open>
  C8, as amended. When \<open>max_count \<ge> 0\<close> and \<open>max_count + max_threads \<le> INT_MAX\<close>, in
  every run of every variant each step leaves the counter as it is or adds
  exactly 1 to it, and so the counter at a later point of the run is never below
  the counter at an earlier point.
\<close>

theorem counter_monotone:
  assumes "initial v c0" and "0 \<le> mc" and "mc + n \<le> INT_MAX"
  shows "(val (exec v n mc c0 (s1 @ [ch])) = val (exec v n mc c0 s1)
          \<or> val (exec v n mc c0 (s1 @ [ch])) = val (exec v n mc c0 s1) + 1)
       \<and> val (exec v n mc c0 s1) \<le> val (exec v n mc c0 (s1 @ s2))"
proof -
  have vi: "val_inv n mc (exec v n mc c0 s1)"
    using assms by (intro val_inv_exec val_inv_initial)
  show ?thesis
    using val_inv_step_val [OF vi assms(2,3), of v ch] val_inv_exec_mono [OF assms(2,3) vi, of v s2]
    by (simp add: exec_append)
qed

theorem counter_monotone_witness:
  "val (exec Mutex 2 1 (init Mutex) (replicate 6 (0, False) @ [(0, False)]))
     = val (exec Mutex 2 1 (init Mutex) (replicate 6 (0, False)))
   \<and> val (exec Mutex 2 1 (init Mutex) (replicate 6 (0, False)))
     \<le> val (exec Mutex 2 1 (init Mutex) (replicate 6 (0, False) @ replicate 8 (1, False)))
   \<and> val (exec Mutex 2 1 (init Mutex) (replicate 6 (0, False))) = 1
   \<and> val (exec Mutex 2 1 (init Mutex) (replicate 6 (0, False) @ replicate 8 (1, False))) = 2"
proof -
  have v: "val (exec Mutex 2 1 (init Mutex) (replicate 6 (0, False) @ [(0, False)])) = 1
      \<and> val (exec Mutex 2 1 (init Mutex) (replicate 6 (0, False))) = 1
      \<and> val (exec Mutex 2 1 (init Mutex) (replicate 6 (0, False) @ replicate 8 (1, False))) = 2"
    by (simp add: numeral_eq_Suc step_simps init_def wrap32_def signed_modulo_int_def)
  show ?thesis
    using counter_monotone [OF initial_init, of 1 2 Mutex "replicate 6 (0, False)" "(0, False)"
        "replicate 8 (1, False)"] v
    by (simp add: INT_MAX_def)
qed

section \<open>Four workers and the target 100\<close>

text \<open>
  C6, the counterexample. The claim: with 4 workers and the target 100 every run
  ends with the counter at exactly 100 and 25 increments of each worker. In the
  run of \<open>sched_4_100\<close> under the mutex the counter reaches 100 by the 25th
  increment of worker 3, who returns; workers 0, 1 and 2 have not seen a value
  \<open>\<ge> 100\<close> yet, call once more in this order, and each finds it is its turn: all
  workers have returned, the counter is 103 and worker 0 has made 26 increments.
\<close>

theorem run_4_100_ends_at_103:
  "all_returned 4 (exec Mutex 4 100 (init Mutex) sched_4_100)
   \<and> val (exec Mutex 4 100 (init Mutex) sched_4_100) = 103
   \<and> increments Mutex 4 100 (init Mutex) sched_4_100 0 = 26"
  by (rule mutex_run_4_100)

text \<open>
  C6, as amended. With 4 workers and the target 100, every run of every variant
  in which all workers have returned ends with the counter between 100 and 103;
  each worker has made 25 or 26 increments, worker 3 exactly 25.
\<close>

theorem scenario_4_100:
  assumes "initial v c0" and "all_returned 4 (exec v 4 100 c0 sched)"
  shows "100 \<le> val (exec v 4 100 c0 sched) \<and> val (exec v 4 100 c0 sched) \<le> 103
     \<and> (\<forall>i < 4. increments v 4 100 c0 sched i = 25 \<or> increments v 4 100 c0 sched i = 26)
     \<and> increments v 4 100 c0 sched 3 = 25"
proof -
  have b: "100 \<le> val (exec v 4 100 c0 sched) \<and> val (exec v 4 100 c0 sched) \<le> 103"
    using final_bounds [OF assms(1), of 4 100 sched] assms(2) by (simp add: INT_MAX_def)
  have vi: "val_inv 4 100 c0" using assms(1) by (rule val_inv_initial)
  have eq: "increments v 4 100 c0 sched i = turns 4 i (nat (val (exec v 4 100 c0 sched)))"
    if "i < 4" for i
    using increments_turns [of 100 4 c0 i v sched] vi that assms(1)
    by (simp add: INT_MAX_def initial_def)
  have lo: "turns 4 i 100 \<le> turns 4 i (nat (val (exec v 4 100 c0 sched)))" for i
    using b by (intro turns_mono) linarith
  have hi: "turns 4 i (nat (val (exec v 4 100 c0 sched))) \<le> turns 4 i 103" for i
    using b by (intro turns_mono) linarith
  have t100: "turns 4 0 100 = 25" "turns 4 1 100 = 25" "turns 4 2 100 = 25" "turns 4 3 100 = 25"
    by code_simp+
  have t103: "turns 4 0 103 = 26" "turns 4 1 103 = 26" "turns 4 2 103 = 26" "turns 4 3 103 = 25"
    by code_simp+
  have each: "increments v 4 100 c0 sched i = 25 \<or> increments v 4 100 c0 sched i = 26"
    if "i < 4" for i
  proof -
    have "i = 0 \<or> i = 1 \<or> i = 2 \<or> i = 3" using that by auto
    then have "25 \<le> turns 4 i (nat (val (exec v 4 100 c0 sched)))
        \<and> turns 4 i (nat (val (exec v 4 100 c0 sched))) \<le> 26"
      using lo[of i] hi[of i] t100 t103 by auto
    then show ?thesis using eq[OF that] by auto
  qed
  have three: "increments v 4 100 c0 sched 3 = 25"
    using eq[of 3] lo[of 3] hi[of 3] t100 t103 by simp
  show ?thesis using b each three by blast
qed

theorem scenario_4_100_witness:
  "100 \<le> val (exec Mutex 4 100 (init Mutex) sched_4_100)
   \<and> val (exec Mutex 4 100 (init Mutex) sched_4_100) \<le> 103
   \<and> increments Mutex 4 100 (init Mutex) sched_4_100 3 = 25"
  using scenario_4_100 [OF initial_init, of Mutex sched_4_100] mutex_run_4_100
  by simp

section \<open>The end of a run\<close>

text \<open>
  C4, the counterexample. The claim: every run ends, every worker leaving its
  loop after finitely many turns. With two workers, the target 1 and the mutex,
  let worker 1 run and worker 0 wait: the counter is 0, it is the turn of worker
  0, and the call of worker 1 changes nothing; after its five steps the
  configuration is the initial one again, no worker has returned, and the same
  five steps can follow for ever.
\<close>

theorem worker_can_loop_for_ever:
  "exec Mutex 2 1 (init Mutex) (replicate 5 (1, False)) = init Mutex
   \<and> \<not> all_returned 2 (init Mutex)"
  by (auto simp: numeral_eq_Suc step_simps init_def all_returned_def signed_modulo_int_def)

text \<open>
  C4, as amended. For \<open>max_threads > 0\<close>, \<open>max_count \<ge> 0\<close> and
  \<open>max_count + max_threads \<le> INT_MAX\<close>, in each of the three variants: every run,
  however far it has gone, has a continuation after which all workers have
  returned; and whenever all workers have returned the counter is at least
  \<open>max_count\<close>.
\<close>

theorem run_can_end:
  assumes "initial v c0" and "0 < n" and "0 \<le> mc" and "mc + n \<le> INT_MAX"
  shows "(\<exists>rest. all_returned n (exec v n mc c0 (sched @ rest)))
     \<and> (all_returned n (exec v n mc c0 sched) \<longrightarrow> mc \<le> val (exec v n mc c0 sched))"
proof -
  have vi: "val_inv n mc (exec v n mc c0 sched)"
    using assms by (intro val_inv_exec val_inv_initial)
  have li: "lock_inv v n (exec v n mc c0 sched)"
    using assms by (intro lock_inv_exec lock_inv_initial)
  obtain rest where "all_returned n (exec v n mc (exec v n mc c0 sched) rest)"
    using can_terminate [OF assms(2,3,4) vi li] by blast
  then have "all_returned n (exec v n mc c0 (sched @ rest))"
    by (simp add: exec_append)
  then show ?thesis
    using final_bounds [OF assms, of sched] by blast
qed

theorem run_can_end_witness:
  "(\<exists>rest. all_returned 2 (exec Mutex 2 1 (init Mutex) (replicate 5 (1, False) @ rest)))
   \<and> all_returned 2 (exec Mutex 2 1 (init Mutex) (replicate 7 (0, False) @ replicate 7 (1, False)))
   \<and> 1 \<le> val (exec Mutex 2 1 (init Mutex) (replicate 7 (0, False) @ replicate 7 (1, False)))"
proof -
  have a: "all_returned 2 (exec Mutex 2 1 (init Mutex) (replicate 7 (0, False) @ replicate 7 (1, False)))"
    by (simp add: numeral_eq_Suc step_simps init_def all_returned_def wrap32_def
        signed_modulo_int_def less_Suc_eq)
  show ?thesis
    using run_can_end [OF initial_init, of 2 1 Mutex "replicate 5 (1, False)"]
      run_can_end [OF initial_init, of 2 1 Mutex "replicate 7 (0, False) @ replicate 7 (1, False)"] a
    by (simp add: INT_MAX_def)
qed

section \<open>The variants compared\<close>

text \<open>
  C5, the counterexample. The claim: on the same \<open>max_threads\<close> and \<open>max_count\<close> the
  variants end with the same counter. With three workers and the target 1:
  under the flag, the calls taking place in the order 0, 1, 2, the run ends with
  the counter at 3; under the mutex, in the order 0, 2, 1, it ends at 2 (the call
  of worker 2 finds the counter at 1, not its turn, and returns).
\<close>

theorem same_inputs_different_finals:
  "all_returned 3 (exec AtomicFlag 3 1 (init AtomicFlag)
      (replicate 7 (0, False) @ replicate 7 (1, False) @ replicate 7 (2, False)))
   \<and> val (exec AtomicFlag 3 1 (init AtomicFlag)
      (replicate 7 (0, False) @ replicate 7 (1, False) @ replicate 7 (2, False))) = 3
   \<and> all_returned 3 (exec Mutex 3 1 (init Mutex)
      (replicate 7 (0, False) @ replicate 5 (2, False) @ replicate 7 (1, False)))
   \<and> val (exec Mutex 3 1 (init Mutex)
      (replicate 7 (0, False) @ replicate 5 (2, False) @ replicate 7 (1, False))) = 2"
  by (simp add: numeral_eq_Suc step_simps init_def all_returned_def wrap32_def
      signed_modulo_int_def less_Suc_eq)

text \<open>
  C5, as amended. On the same \<open>max_threads\<close>, \<open>max_count\<close> and the same schedule, a run
  with the flag and a run with the mutex have the same counter at every point
  and end together; and one call run alone on a free lock returns the same value
  and leaves the same counter in all three variants.
\<close>

theorem variants_agree:
  "(initial AtomicFlag c \<and> initial Mutex d \<longrightarrow>
      val (exec AtomicFlag n mc c sched) = val (exec Mutex n mc d sched)
      \<and> (all_returned n (exec AtomicFlag n mc c sched) \<longleftrightarrow> all_returned n (exec Mutex n mc d sched)))
   \<and> (\<not> std_spin_lock r \<and> \<not> m_locked r \<longrightarrow>
      observe (inc AtomicSpin sp k i r) = observe (inc Mutex sp k i r)
      \<and> observe (inc AtomicFlag sp k i r) = observe (inc Mutex sp k i r))"
proof (intro conjI impI)
  assume "initial AtomicFlag c \<and> initial Mutex d"
  then have "corr (exec AtomicFlag n mc c sched) (exec Mutex n mc d sched)"
    by (intro corr_exec corr_initial) simp_all
  then show "val (exec AtomicFlag n mc c sched) = val (exec Mutex n mc d sched)"
    and "all_returned n (exec AtomicFlag n mc c sched) \<longleftrightarrow> all_returned n (exec Mutex n mc d sched)"
    by (simp_all add: corr_def corr_all_returned)
next
  assume f: "\<not> std_spin_lock r \<and> \<not> m_locked r"
  show "observe (inc AtomicSpin sp k i r) = observe (inc Mutex sp k i r)"
    using f by (auto simp: observe_def inc_def inc_spin_def inc_mutex_def mutex_lock_def
        split: sum.splits prod.splits)
  show "observe (inc AtomicFlag sp k i r) = observe (inc Mutex sp k i r)"
    using f by (auto simp: observe_def inc_def inc_flag_def inc_mutex_def mutex_lock_def
        flag_acquire.simps split: sum.splits prod.splits)
qed

theorem variants_agree_witness:
  "val (exec AtomicFlag 3 1 (init AtomicFlag)
          (replicate 7 (0, False) @ replicate 5 (2, False) @ replicate 7 (1, False)))
     = val (exec Mutex 3 1 (init Mutex)
          (replicate 7 (0, False) @ replicate 5 (2, False) @ replicate 7 (1, False)))
   \<and> val (exec Mutex 3 1 (init Mutex)
          (replicate 7 (0, False) @ replicate 5 (2, False) @ replicate 7 (1, False))) = 2
   \<and> observe (inc AtomicSpin [] 3 1 \<lparr>val = 1, spin_lock = 0, std_spin_lock = False, m_locked = False\<rparr>)
     = observe (inc Mutex [] 3 1 \<lparr>val = 1, spin_lock = 0, std_spin_lock = False, m_locked = False\<rparr>)
   \<and> observe (inc Mutex [] 3 1 \<lparr>val = 1, spin_lock = 0, std_spin_lock = False, m_locked = False\<rparr>)
     = Some (Inr (2, 2))"
proof -
  have a: "val (exec Mutex 3 1 (init Mutex)
          (replicate 7 (0, False) @ replicate 5 (2, False) @ replicate 7 (1, False))) = 2"
    by (simp add: numeral_eq_Suc step_simps init_def wrap32_def signed_modulo_int_def)
  have b: "observe (inc Mutex [] 3 1 \<lparr>val = 1, spin_lock = 0, std_spin_lock = False, m_locked = False\<rparr>)
     = Some (Inr (2, 2))"
    by (simp add: observe_def inc_def inc_mutex_def mutex_lock_def protected_region_def
        INT_MIN_def wrap32_def signed_modulo_int_def)
  show ?thesis
    using variants_agree [of "init AtomicFlag" "init Mutex" 3 1
        "replicate 7 (0, False) @ replicate 5 (2, False) @ replicate 7 (1, False)"
        "\<lparr>val = 1, spin_lock = 0, std_spin_lock = False, m_locked = False\<rparr>" "[]" 3 1]
      initial_init [of AtomicFlag] initial_init [of Mutex] a b
    by simp
qed

section \<open>Further properties\<close>

text \<open>
  Mutual exclusion holds with the flag and with the mutex: in no configuration
  of a run of \<^verbatim>\<open>ResourceAtomicFlag\<close> or \<^verbatim>\<open>ResourceMutex\<close> are two workers between lock and
  unlock.
\<close>

theorem flag_mutex_exclusion:
  assumes "initial v c0" and "v \<noteq> AtomicSpin"
    and "i < nat n" and "j < nat n"
    and "in_region (exec v n mc c0 sched) i" and "in_region (exec v n mc c0 sched) j"
  shows "i = j"
proof -
  have "lock_inv v n (exec v n mc c0 sched)"
    using assms(1) by (intro lock_inv_exec lock_inv_initial)
  then show ?thesis using assms(2-) unfolding lock_inv_def by blast
qed

theorem flag_mutex_exclusion_witness:
  "in_region (exec Mutex 2 1 (init Mutex) [(0, False), (1, False)]) 0
   \<and> \<not> in_region (exec Mutex 2 1 (init Mutex) [(0, False), (1, False)]) 1
   \<and> in_region (exec AtomicFlag 2 1 (init AtomicFlag) [(1, False), (0, False), (0, False)]) 1
   \<and> \<not> in_region (exec AtomicFlag 2 1 (init AtomicFlag) [(1, False), (0, False), (0, False)]) 0"
proof -
  have a: "in_region (exec Mutex 2 1 (init Mutex) [(0, False), (1, False)]) 0"
    and b: "in_region (exec AtomicFlag 2 1 (init AtomicFlag) [(1, False), (0, False), (0, False)]) 1"
    by (simp_all add: step_simps init_def in_region_def)
  show ?thesis
    using a b
      flag_mutex_exclusion [OF initial_init, of Mutex 0 2 1 1 "[(0, False), (1, False)]"]
      flag_mutex_exclusion [OF initial_init, of AtomicFlag 1 2 0 1 "[(1, False), (0, False), (0, False)]"]
    by auto
qed

text \<open>
  The two models of a call agree: in the interleaving model a worker about to
  call \<^verbatim>\<open>inc\<close> on a free lock, running alone, comes to its loop test with the value
  that \<open>inc\<close> returns and the resource that \<open>inc\<close> leaves.
\<close>

theorem solo_call_is_inc:
  assumes i: "int i < n" and e: "pc (threads c i) = entry v"
    and f: "\<not> std_spin_lock c" and m: "\<not> m_locked c"
  shows "\<exists>k. pc (threads (exec v n mc c (replicate k (i, False))) i) = LoopTest
     \<and> inc v [] n (int i) (resource_of c)
         = Some (Inr (ret (threads (exec v n mc c (replicate k (i, False))) i),
                      resource_of (exec v n mc c (replicate k (i, False)))))"
proof -
  have n: "0 < n" using i by simp
  note pr = protected_region_pos [OF n]
  show ?thesis
  proof (cases v)
    case AtomicSpin
    show ?thesis
    proof (cases "spin_lock c = 0")
      case True
      show ?thesis
        by (rule exI [of _ "if val c smod n = int i then 9 else 7"])
          (use AtomicSpin True e f m in \<open>simp add: numeral_eq_Suc step_at[OF i] entry_def
             inc_def inc_spin_def pr resource_of_def unlock_def\<close>)
    next
      case False
      show ?thesis
        by (rule exI [of _ "if val c smod n = int i then 7 else 5"])
          (use AtomicSpin False e f m in \<open>simp add: numeral_eq_Suc step_at[OF i] entry_def
             inc_def inc_spin_def pr resource_of_def unlock_def\<close>)
    qed
  next
    case AtomicFlag
    show ?thesis
      by (rule exI [of _ "if val c smod n = int i then 6 else 4"])
        (use AtomicFlag e f m in \<open>simp add: numeral_eq_Suc step_at[OF i] entry_def
           inc_def inc_flag_def flag_acquire.simps pr resource_of_def unlock_def\<close>)
  next
    case Mutex
    show ?thesis
      by (rule exI [of _ "if val c smod n = int i then 6 else 4"])
        (use Mutex e f m in \<open>simp add: numeral_eq_Suc step_at[OF i] entry_def
           inc_def inc_mutex_def mutex_lock_def pr resource_of_def unlock_def\<close>)
  qed
qed

theorem solo_call_is_inc_witness:
  "\<exists>k. pc (threads (exec Mutex 2 1 (init Mutex) (replicate k (0, False))) 0) = LoopTest
     \<and> inc Mutex [] 2 0 (resource_of (init Mutex))
         = Some (Inr (ret (threads (exec Mutex 2 1 (init Mutex) (replicate k (0, False))) 0),
                      resource_of (exec Mutex 2 1 (init Mutex) (replicate k (0, False)))))"
  using solo_call_is_inc [of 0 2 "init Mutex" Mutex 1]
  by (simp add: init_def entry_def)

text \<open>
  With the flag or the mutex and at least two workers a run never ends with the
  counter at the target itself: the worker whose turn it is at the target leaves
  its loop only with a copy above it. (\<open>max_count \<ge> 0\<close>, no overflow.)
\<close>

theorem locked_run_ends_above_target:
  assumes "initial v c0" and "v \<noteq> AtomicSpin" and "2 \<le> n" and "0 \<le> mc"
    and "mc + n \<le> INT_MAX" and "all_returned n (exec v n mc c0 sched)"
  shows "mc < val (exec v n mc c0 sched)"
proof -
  define c where "c = exec v n mc c0 sched"
  define t where "t = nat (mc mod n)"
  have tN: "t < nat n" and tm: "mc mod n = int t"
    using assms(3) by (simp_all add: t_def nat_less_iff)
  have r: "pc (threads c t) = Returned"
    using assms(6) tN by (simp add: all_returned_def c_def)
  have "exit_inv mc c"
    unfolding c_def using assms(1) by (intro exit_inv_exec exit_inv_initial)
  then have ge: "mc \<le> ret (threads c t)" using r by (simp add: exit_inv_def)
  have "above_inv n c"
    unfolding c_def using assms
    by (intro above_inv_exec above_inv_initial val_inv_initial lock_inv_initial)
  then have "ret (threads c t) mod n \<noteq> int t" and le: "ret (threads c t) \<le> val c"
    using r tN by (auto simp: above_inv_def)
  then have "ret (threads c t) \<noteq> mc" using tm by auto
  then show ?thesis using ge le by (simp add: c_def)
qed

theorem locked_run_ends_above_target_witness:
  "all_returned 2 (exec AtomicFlag 2 1 (init AtomicFlag) (replicate 7 (0, False) @ replicate 7 (1, False)))
   \<and> 1 < val (exec AtomicFlag 2 1 (init AtomicFlag) (replicate 7 (0, False) @ replicate 7 (1, False)))"
proof -
  have a: "all_returned 2 (exec AtomicFlag 2 1 (init AtomicFlag)
      (replicate 7 (0, False) @ replicate 7 (1, False)))"
    by (simp add: numeral_eq_Suc step_simps init_def all_returned_def wrap32_def
        signed_modulo_int_def less_Suc_eq)
  show ?thesis
    using a locked_run_ends_above_target [OF initial_init, of AtomicFlag 2 1
        "replicate 7 (0, False) @ replicate 7 (1, False)"]
    by (simp add: INT_MAX_def)
qed

text \<open>
  With \<^verbatim>\<open>ResourceAtomicSpin\<close> it can: two workers, the target 1. Worker 1 tests its
  turn at the counter 0 and is due to copy; worker 0 enters as well (both are
  between lock and unlock), increments and returns with 1; worker 1 then copies
  the 1 that worker 0 wrote and returns. With the flag or the mutex every such
  run ends at 2.
\<close>

theorem spin_run_ends_at_target:
  "pc (threads (exec AtomicSpin 2 1 (init AtomicSpin)
      (replicate 5 (1, False) @ replicate 8 (0, False) @ replicate 3 (1, False))) 0) = Returned
   \<and> pc (threads (exec AtomicSpin 2 1 (init AtomicSpin)
      (replicate 5 (1, False) @ replicate 8 (0, False) @ replicate 3 (1, False))) 1) = Returned
   \<and> val (exec AtomicSpin 2 1 (init AtomicSpin)
      (replicate 5 (1, False) @ replicate 8 (0, False) @ replicate 3 (1, False))) = 1
   \<and> in_region (exec AtomicSpin 2 1 (init AtomicSpin)
      (replicate 5 (1, False) @ replicate 4 (0, False))) 0
   \<and> in_region (exec AtomicSpin 2 1 (init AtomicSpin)
      (replicate 5 (1, False) @ replicate 4 (0, False))) 1"
  by (simp add: numeral_eq_Suc step_simps init_def all_returned_def wrap32_def
      signed_modulo_int_def less_Suc_eq in_region_def)

text \<open>
  An overflow ends no run: with two workers, the mutex and the target \<open>INT_MAX\<close>,
  once worker 1 has made the counter \<open>INT_MIN\<close> (worker 0 having returned) no
  continuation of the run brings worker 1 out of its loop.
\<close>

theorem overflow_run_never_ends:
  "\<not> all_returned 2 (exec Mutex 2 INT_MAX (init Mutex)
        (alternate 1073741823 @ replicate 7 (0, False) @ replicate 7 (1, False) @ rest))"
proof -
  define c where "c = exec Mutex 2 INT_MAX (init Mutex)
        (alternate 1073741823 @ replicate 7 (0, False) @ replicate 7 (1, False))"
  have "stuck INT_MAX c"
    using wrap_run by (simp add: stuck_def c_def)
  then have "stuck INT_MAX (exec Mutex 2 INT_MAX c rest)"
    by (rule stuck_exec) (simp add: INT_MAX_def)
  then have "pc (threads (exec Mutex 2 INT_MAX c rest) 1) \<noteq> Returned"
    by (auto simp: stuck_def)
  moreover have "(1::nat) < nat 2" by simp
  ultimately have "\<not> all_returned 2 (exec Mutex 2 INT_MAX c rest)"
    unfolding all_returned_def by blast
  moreover have "exec Mutex 2 INT_MAX c rest = exec Mutex 2 INT_MAX (init Mutex)
        (alternate 1073741823 @ replicate 7 (0, False) @ replicate 7 (1, False) @ rest)"
    unfolding c_def by (simp only: exec_append [symmetric] append_assoc)
  ultimately show ?thesis by simp
qed

theorem overflow_run_never_ends_witness:
  "\<not> all_returned 2 (exec Mutex 2 INT_MAX (init Mutex)
        (alternate 1073741823 @ replicate 7 (0, False) @ replicate 7 (1, False)
         @ replicate 5 (1, False)))"
  using overflow_run_never_ends [of "replicate 5 (1, False)"] by simp

text \<open>
  Once the counter has reached the target, each worker makes at most one more
  increment in the rest of the run: the call that makes it returns a value
  \<open>\<ge> max_count\<close>, and the worker then leaves its loop. (No overflow.)
\<close>

theorem one_increment_after_target:
  assumes "initial v c0" and "0 \<le> mc" and "mc + n \<le> INT_MAX" and "i < nat n"
    and "mc \<le> val (exec v n mc c0 s1)"
  shows "increments v n mc (exec v n mc c0 s1) s2 i \<le> 1"
proof -
  have "val_inv n mc (exec v n mc c0 s1)"
    using assms(1,2,3) by (intro val_inv_exec val_inv_initial)
  then have "increments v n mc (exec v n mc c0 s1) s2 i
      \<le> (if committed mc (exec v n mc c0 s1) i then 0 else 1)"
    using assms by (intro increments_after_target)
  then show ?thesis by (simp split: if_splits)
qed

theorem one_increment_after_target_witness:
  "increments Mutex 2 1 (exec Mutex 2 1 (init Mutex) (replicate 7 (0, False)))
      (replicate 7 (1, False)) 1 \<le> 1
   \<and> increments Mutex 2 1 (exec Mutex 2 1 (init Mutex) (replicate 7 (0, False)))
      (replicate 7 (1, False)) 1 = 1
   \<and> val (exec Mutex 2 1 (init Mutex) (replicate 7 (0, False))) = 1"
proof -
  have a: "val (exec Mutex 2 1 (init Mutex) (replicate 7 (0, False))) = 1
    \<and> increments Mutex 2 1 (exec Mutex 2 1 (init Mutex) (replicate 7 (0, False)))
      (replicate 7 (1, False)) 1 = 1"
    by (simp add: numeral_eq_Suc step_simps init_def wrap32_def signed_modulo_int_def)
  show ?thesis
    using a one_increment_after_target [OF initial_init, of 1 2 1 Mutex "replicate 7 (0, False)"
        "replicate 7 (1, False)"]
    by (simp add: INT_MAX_def)
qed

text \<open>
  Turn order: in every run without overflow worker \<open>i\<close> has made exactly as many
  increments as there are values \<open>u\<close> below the counter with \<open>u mod max_threads = i\<close>.
\<close>

theorem increments_by_turn:
  assumes "initial v c0" and "0 \<le> mc" and "mc + n \<le> INT_MAX" and "i < nat n"
  shows "increments v n mc c0 sched i = turns n i (nat (val (exec v n mc c0 sched)))"
proof -
  have "val_inv n mc c0" using assms(1) by (rule val_inv_initial)
  then have "increments v n mc c0 sched i + turns n i (nat (val c0))
       = turns n i (nat (val (exec v n mc c0 sched)))"
    using assms by (intro increments_turns)
  then show ?thesis using assms(1) by (simp add: initial_def)
qed

theorem increments_by_turn_witness:
  "increments Mutex 2 1 (init Mutex) (replicate 7 (0, False) @ replicate 7 (1, False)) 0
     = turns 2 0 (nat (val (exec Mutex 2 1 (init Mutex) (replicate 7 (0, False) @ replicate 7 (1, False)))))
   \<and> turns 2 0 2 = 1
   \<and> val (exec Mutex 2 1 (init Mutex) (replicate 7 (0, False) @ replicate 7 (1, False))) = 2"
proof -
  have a: "val (exec Mutex 2 1 (init Mutex) (replicate 7 (0, False) @ replicate 7 (1, False))) = 2"
    by (simp add: numeral_eq_Suc step_simps init_def wrap32_def signed_modulo_int_def)
  have b: "turns 2 0 2 = 1" by (simp add: numeral_eq_Suc)
  show ?thesis
    using a b increments_by_turn [OF initial_init, of 1 2 0 Mutex
        "replicate 7 (0, False) @ replicate 7 (1, False)"]
    by (simp add: INT_MAX_def)
qed

text \<open>
  A call of \<^verbatim>\<open>ResourceAtomicSpin\<close> inside a run: worker 0 is at the test of its turn
  with the counter at 0, stores 1, worker 1 enters meanwhile and stores 2, and
  the call of worker 0 returns 2 with the counter at 2.
\<close>

theorem spin_call_returns_later_value:
  "pc (threads (exec AtomicSpin 2 5 (init AtomicSpin) (replicate 4 (0, False))) 0) = TestTurn
   \<and> val (exec AtomicSpin 2 5 (init AtomicSpin) (replicate 4 (0, False))) = 0
   \<and> pc (threads (exec AtomicSpin 2 5 (init AtomicSpin)
        (replicate 4 (0, False) @ replicate 3 (0, False) @ replicate 5 (1, False)
           @ replicate 2 (0, False))) 0) = LoopTest
   \<and> ret (threads (exec AtomicSpin 2 5 (init AtomicSpin)
        (replicate 4 (0, False) @ replicate 3 (0, False) @ replicate 5 (1, False)
           @ replicate 2 (0, False))) 0) = 2
   \<and> val (exec AtomicSpin 2 5 (init AtomicSpin)
        (replicate 4 (0, False) @ replicate 3 (0, False) @ replicate 5 (1, False)
           @ replicate 2 (0, False))) = 2"
  by (simp add: numeral_eq_Suc step_simps init_def wrap32_def signed_modulo_int_def)

text \<open>
  What \<^verbatim>\<open>main\<close> does with the result of \<^verbatim>\<open>std::stoi\<close>, whatever that function is:
  the default 1000000 when it throws or returns a negative value, and the value
  it returns otherwise.
\<close>

theorem main_max_count_default:
  "1 < length argv \<Longrightarrow>
     (stoi (argv ! 1) = Stoi_throws \<longrightarrow> main_max_count stoi argv = 1000000)
   \<and> (stoi (argv ! 1) = Stoi_value x \<and> x < 0 \<longrightarrow> main_max_count stoi argv = 1000000)
   \<and> (stoi (argv ! 1) = Stoi_value x \<and> 0 \<le> x \<longrightarrow> main_max_count stoi argv = x)"
  by (simp add: main_max_count_def max_count_dflt_def)

theorem main_max_count_default_witness:
  "main_max_count (\<lambda>s. if s = ''abc'' then Stoi_throws else if s = ''-5'' then Stoi_value (- 5)
                      else Stoi_value 42) [''lstest'', ''abc''] = 1000000
   \<and> main_max_count (\<lambda>s. if s = ''abc'' then Stoi_throws else if s = ''-5'' then Stoi_value (- 5)
                      else Stoi_value 42) [''lstest'', ''-5''] = 1000000
   \<and> main_max_count (\<lambda>s. if s = ''abc'' then Stoi_throws else if s = ''-5'' then Stoi_value (- 5)
                      else Stoi_value 42) [''lstest'', ''42''] = 42"
  using
    main_max_count_default [of "[''lstest'', ''abc'']"
      "\<lambda>s. if s = ''abc'' then Stoi_throws else if s = ''-5'' then Stoi_value (- 5) else Stoi_value 42" 0]
    main_max_count_default [of "[''lstest'', ''-5'']"
      "\<lambda>s. if s = ''abc'' then Stoi_throws else if s = ''-5'' then Stoi_value (- 5) else Stoi_value 42" "- 5"]
    main_max_count_default [of "[''lstest'', ''42'']"
      "\<lambda>s. if s = ''abc'' then Stoi_throws else if s = ''-5'' then Stoi_value (- 5) else Stoi_value 42" 42]
  by simp

end
